theory Spec2Isabelle
  imports Complex_Main
begin

section \<open>Python values and exceptions\<close>

text \<open>
  The notebook \<^verbatim>\<open>MLFLOW/wine-ml.ipynb\<close> runs a hyperparameter sweep: \<^verbatim>\<open>hyperopt.fmin\<close>
  calls \<^verbatim>\<open>objective\<close>, which calls \<^verbatim>\<open>model_train\<close>, which trains a Keras model inside a
  nested MLflow run; the last cell picks the best result and logs it on the parent run.

  A Python \<^verbatim>\<open>float\<close> is a finite number, an infinity or NaN. The arithmetic of the
  finite values is not modelled (they are reals here); their comparison is, NaN included:
  every comparison with NaN is false.
\<close>

datatype pyfloat = Finite real | PosInf | NegInf | NaN

fun float_lt :: "pyfloat \<Rightarrow> pyfloat \<Rightarrow> bool" where
  "float_lt NaN b = False"
| "float_lt a NaN = False"
| "float_lt PosInf b = False"
| "float_lt NegInf NegInf = False"
| "float_lt NegInf b = True"
| "float_lt (Finite x) NegInf = False"
| "float_lt (Finite x) PosInf = True"
| "float_lt (Finite x) (Finite y) = (x < y)"

definition float_le :: "pyfloat \<Rightarrow> pyfloat \<Rightarrow> bool" where
  "float_le a b = (a \<noteq> NaN \<and> b \<noteq> NaN \<and> \<not> float_lt b a)"

text \<open>
  Exceptions are values. \<open>Raised msg\<close> stands for any exception thrown inside a library
  call (Keras, the tracking client); \<open>KeyboardInterrupt\<close> is the cancellation of a cell.
\<close>

datatype exn =
    KeyError string
  | IndexError
  | KeyboardInterrupt
  | Raised string
  | RunAlreadyActive
  | NoEvaluationTasks
  | AllTrialsFailed

section \<open>The built-in \<^verbatim>\<open>sorted\<close>\<close>

text \<open>
  \<^verbatim>\<open>sorted(xs, key=f)\<close> is a stable sort that compares keys with \<^verbatim>\<open><\<close> only. The model
  is CPython's \<^verbatim>\<open>list.sort\<close> on a list of fewer than 64 elements (the sweep has 12):
  \<^verbatim>\<open>count_run\<close> finds the initial run (non-descending, or strictly descending and then
  reversed), and \<^verbatim>\<open>binarysort\<close> inserts every later element at the place a binary search
  with \<^verbatim>\<open>pivot < p\<close> finds. On longer lists CPython merges runs built this way; where
  the keys are totally ordered the result is the same list.
\<close>

fun run_asc :: "('a \<Rightarrow> 'a \<Rightarrow> bool) \<Rightarrow> 'a \<Rightarrow> 'a list \<Rightarrow> nat" where
  "run_asc lt prev [] = 0"
| "run_asc lt prev (x # xs) = (if lt x prev then 0 else Suc (run_asc lt x xs))"

fun run_desc :: "('a \<Rightarrow> 'a \<Rightarrow> bool) \<Rightarrow> 'a \<Rightarrow> 'a list \<Rightarrow> nat" where
  "run_desc lt prev [] = 0"
| "run_desc lt prev (x # xs) = (if lt x prev then Suc (run_desc lt x xs) else 0)"

fun count_run :: "('a \<Rightarrow> 'a \<Rightarrow> bool) \<Rightarrow> 'a list \<Rightarrow> nat \<times> bool" where
  "count_run lt [] = (0, False)"
| "count_run lt [x] = (1, False)"
| "count_run lt (x # y # xs) =
     (if lt y x then (2 + run_desc lt y xs, True)
      else (2 + run_asc lt y xs, False))"

function bisect :: "('a \<Rightarrow> 'a \<Rightarrow> bool) \<Rightarrow> 'a \<Rightarrow> 'a list \<Rightarrow> nat \<Rightarrow> nat \<Rightarrow> nat" where
  "bisect lt pivot ks l r =
     (if l < r then
        (let p = l + (r - l) div 2
         in if lt pivot (ks ! p) then bisect lt pivot ks l p
            else bisect lt pivot ks (p + 1) r)
      else l)"
  by pat_completeness auto
termination
  by (relation "measure (\<lambda>(lt, pivot, ks, l, r). r - l)") auto

declare bisect.simps [simp del]

fun binarysort :: "('a \<Rightarrow> 'a \<Rightarrow> bool) \<Rightarrow> 'a list \<Rightarrow> 'a list \<Rightarrow> 'a list" where
  "binarysort lt pre [] = pre"
| "binarysort lt pre (pivot # rest) =
     (let l = bisect lt pivot pre 0 (length pre)
      in binarysort lt (take l pre @ pivot # drop l pre) rest)"

definition list_sort :: "('a \<Rightarrow> 'a \<Rightarrow> bool) \<Rightarrow> 'a list \<Rightarrow> 'a list" where
  "list_sort lt xs =
     (if length xs < 2 then xs
      else (case count_run lt xs of
              (n, descending) \<Rightarrow>
                binarysort lt
                  (if descending then rev (take n xs) else take n xs)
                  (drop n xs)))"

definition py_sorted :: "('a \<Rightarrow> pyfloat) \<Rightarrow> 'a list \<Rightarrow> 'a list" where
  "py_sorted key xs = list_sort (\<lambda>a b. float_lt (key a) (key b)) xs"

text \<open>\<^verbatim>\<open>d[k]\<close> on a dictionary raises \<^verbatim>\<open>KeyError\<close> when the key is missing.\<close>

definition getitem :: "(string \<times> 'v) list \<Rightarrow> string \<Rightarrow> exn + 'v" where
  "getitem d k = (case map_of d k of None \<Rightarrow> Inl (KeyError k) | Some v \<Rightarrow> Inr v)"

text \<open>
  \<^verbatim>\<open>xs[i]\<close> on a list, for an index \<open>i\<close> that is not negative: \<^verbatim>\<open>IndexError\<close> when the list
  is too short.
\<close>

definition index :: "'a list \<Rightarrow> nat \<Rightarrow> exn + 'a" where
  "index xs i = (if i < length xs then Inr (xs ! i) else Inl IndexError)"

section \<open>The MLflow tracking client\<close>

text \<open>
  The fluent MLflow API keeps a stack of active runs. \<^verbatim>\<open>start_run\<close> creates a run record
  and pushes it; with \<^verbatim>\<open>nested=True\<close> the new run's parent is the run on top of the stack,
  and without it \<^verbatim>\<open>start_run\<close> raises when a run is already active. \<^verbatim>\<open>end_run\<close> pops the
  stack and seals the record with the given status. A run's id is its index in \<open>runs\<close>;
  timestamps are read from a logical clock that ticks at every start and end.
\<close>

datatype run_status = RUNNING | FINISHED | FAILED

record ('m, 's) run =
  run_parent :: "nat option"
  run_params :: "(string \<times> real) list"
  run_metrics :: "(string \<times> pyfloat) list"
  run_artifacts :: "(string \<times> 'm \<times> 's) list"
  run_status :: run_status
  start_time :: nat
  end_time :: "nat option"

record ('m, 's) mlflow =
  runs :: "('m, 's) run list"
  active :: "nat list"
  registry :: "(string \<times> 'm) list"
  clock :: nat

type_synonym ('a, 'm, 's) tracked = "('m, 's) mlflow \<Rightarrow> (exn + 'a) \<times> ('m, 's) mlflow"

definition returnM :: "'a \<Rightarrow> ('a, 'm, 's) tracked" where
  "returnM v st = (Inr v, st)"

definition bindM :: "('a, 'm, 's) tracked \<Rightarrow> ('a \<Rightarrow> ('b, 'm, 's) tracked) \<Rightarrow> ('b, 'm, 's) tracked" where
  "bindM m f st = (case m st of (Inl e, st1) \<Rightarrow> (Inl e, st1) | (Inr v, st1) \<Rightarrow> f v st1)"

text \<open>A call that touches no tracking state: it returns or raises.\<close>

definition bindE :: "exn + 'a \<Rightarrow> ('a \<Rightarrow> ('b, 'm, 's) tracked) \<Rightarrow> ('b, 'm, 's) tracked" where
  "bindE x f st = (case x of Inl e \<Rightarrow> (Inl e, st) | Inr v \<Rightarrow> f v st)"

definition start_run :: "bool \<Rightarrow> (nat, 'm, 's) tracked" where
  "start_run nested st =
     (if active st \<noteq> [] \<and> \<not> nested then (Inl RunAlreadyActive, st)
      else (Inr (length (runs st)),
            st\<lparr>runs := runs st @
                   [\<lparr>run_parent = (case active st of [] \<Rightarrow> None | p # _ \<Rightarrow> Some p),
                     run_params = [], run_metrics = [], run_artifacts = [],
                     run_status = RUNNING, start_time = clock st, end_time = None\<rparr>],
               active := length (runs st) # active st,
               clock := Suc (clock st)\<rparr>))"

definition end_run :: "run_status \<Rightarrow> ('m, 's) mlflow \<Rightarrow> ('m, 's) mlflow" where
  "end_run s st =
     (case active st of
        [] \<Rightarrow> st
      | rid # rest \<Rightarrow>
          st\<lparr>runs := (runs st)[rid := (runs st ! rid)\<lparr>run_status := s, end_time := Some (clock st)\<rparr>],
             active := rest,
             clock := Suc (clock st)\<rparr>)"

text \<open>
  \<^verbatim>\<open>with mlflow.start_run(nested=...): body\<close>. The context manager's exit ends the run
  with \<^verbatim>\<open>FINISHED\<close> when the body left normally (a \<^verbatim>\<open>return\<close> included) and with \<^verbatim>\<open>FAILED\<close>
  when it left by any exception, which is then raised again.
\<close>

definition with_run :: "bool \<Rightarrow> ('a, 'm, 's) tracked \<Rightarrow> ('a, 'm, 's) tracked" where
  "with_run nested body st =
     (case start_run nested st of
        (Inl e, st1) \<Rightarrow> (Inl e, st1)
      | (Inr rid, st1) \<Rightarrow>
          (case body st1 of
             (Inl e, st2) \<Rightarrow> (Inl e, end_run FAILED st2)
           | (Inr v, st2) \<Rightarrow> (Inr v, end_run FINISHED st2)))"

text \<open>
  The logging calls write to the active run; with no run active the fluent API starts
  one first.
\<close>

definition get_or_start_run :: "('m, 's) mlflow \<Rightarrow> nat \<times> ('m, 's) mlflow" where
  "get_or_start_run st =
     (case active st of
        [] \<Rightarrow> (length (runs st), snd (start_run False st))
      | rid # _ \<Rightarrow> (rid, st))"

definition on_active :: "(('m, 's) run \<Rightarrow> ('m, 's) run) \<Rightarrow> (unit, 'm, 's) tracked" where
  "on_active f st =
     (case get_or_start_run st of
        (rid, st1) \<Rightarrow> (Inr (), st1\<lparr>runs := (runs st1)[rid := f (runs st1 ! rid)]\<rparr>))"

definition log_params :: "(string \<times> real) list \<Rightarrow> (unit, 'm, 's) tracked" where
  "log_params ps = on_active (\<lambda>r. r\<lparr>run_params := run_params r @ ps\<rparr>)"

definition log_metric :: "string \<Rightarrow> pyfloat \<Rightarrow> (unit, 'm, 's) tracked" where
  "log_metric name v = on_active (\<lambda>r. r\<lparr>run_metrics := run_metrics r @ [(name, v)]\<rparr>)"

text \<open>
  \<^verbatim>\<open>mlflow.tensorflow.log_model(model, artifact_path, signature=..., registered_model_name=None)\<close>
  stores the model as an artifact of the active run. Only a call that passes
  \<^verbatim>\<open>registered_model_name\<close> also creates a version in the model registry.
\<close>

definition log_model :: "'m \<Rightarrow> string \<Rightarrow> 's \<Rightarrow> string option \<Rightarrow> (unit, 'm, 's) tracked" where
  "log_model mdl artifact_path sg registered_model_name st =
     (case on_active (\<lambda>r. r\<lparr>run_artifacts := run_artifacts r @ [(artifact_path, mdl, sg)]\<rparr>) st of
        (res, st1) \<Rightarrow>
          (res, (case registered_model_name of
                   None \<Rightarrow> st1
                 | Some name \<Rightarrow> st1\<lparr>registry := registry st1 @ [(name, mdl)]\<rparr>)))"

section \<open>The notebook\<close>

subsection \<open>Keras and the data\<close>

text \<open>
  Keras is a parameter of the model. \<open>build\<close> computes the mean and variance of the
  training features and makes the \<^verbatim>\<open>keras.Sequential\<close> network from them and from the
  number of feature columns; \<open>compile\<close> attaches the SGD optimizer with the given learning
  rate and momentum; \<open>fit\<close> trains on the training data, watching the validation data, for
  a number of epochs at a batch size; \<open>evaluate\<close> returns the list \<^verbatim>\<open>[loss, rmse]\<close>. Each
  may raise.
\<close>

record ('x, 'y, 'm) keras =
  build :: "'x \<Rightarrow> exn + 'm"
  compile :: "'m \<Rightarrow> real \<Rightarrow> real \<Rightarrow> exn + 'm"
  fit :: "'m \<Rightarrow> 'x \<Rightarrow> 'y \<Rightarrow> 'x \<Rightarrow> 'y \<Rightarrow> nat \<Rightarrow> nat \<Rightarrow> exn + 'm"
  evaluate :: "'m \<Rightarrow> 'x \<Rightarrow> 'y \<Rightarrow> nat \<Rightarrow> exn + pyfloat list"

text \<open>The notebook's global variables: the three splits of the data and the signature.\<close>

record ('x, 'y, 's) globals =
  g_train_X :: 'x
  g_train_y :: 'y
  g_validation_X :: 'x
  g_validation_y :: 'y
  g_test_X :: 'x
  g_test_y :: 'y
  g_signature :: 's

subsection \<open>\<^verbatim>\<open>model_train\<close> and \<^verbatim>\<open>objective\<close>\<close>

datatype trial_status = STATUS_NEW | STATUS_RUNNING | STATUS_SUSPENDED | STATUS_OK | STATUS_FAIL

record 'm result =
  loss :: pyfloat
  status :: trial_status
  model :: 'm

definition model_train ::
  "('x, 'y, 'm) keras \<Rightarrow> 's \<Rightarrow> (string \<times> real) list \<Rightarrow> nat \<Rightarrow>
     'x \<Rightarrow> 'y \<Rightarrow> 'x \<Rightarrow> 'y \<Rightarrow> 'x \<Rightarrow> 'y \<Rightarrow> ('m result, 'm, 's) tracked" where
  "model_train K sg params epochs train_X train_y validation_X validation_y test_X test_y =
     bindE (build K train_X) (\<lambda>m0.
     bindE (getitem params ''lr'') (\<lambda>lr.
     bindE (getitem params ''momentum'') (\<lambda>momentum.
     bindE (compile K m0 lr momentum) (\<lambda>m1.
     with_run True
       (bindE (fit K m1 train_X train_y validation_X validation_y epochs 64) (\<lambda>m2.
        bindE (evaluate K m2 validation_X validation_y 64) (\<lambda>eval_result.
        bindE (index eval_result 1) (\<lambda>eval_rmse.
        bindM (log_params params) (\<lambda>_.
        bindM (log_metric ''eval_rmse'' eval_rmse) (\<lambda>_.
        bindM (log_model m2 ''model'' sg None) (\<lambda>_.
        returnM \<lparr>loss = eval_rmse, status = STATUS_OK, model = m2\<rparr>)))))))))))"

definition objective ::
  "('x, 'y, 'm) keras \<Rightarrow> ('x, 'y, 's) globals \<Rightarrow> (string \<times> real) list \<Rightarrow> ('m result, 'm, 's) tracked" where
  "objective K G params =
     model_train K (g_signature G) params 3
       (g_train_X G) (g_train_y G) (g_validation_X G) (g_validation_y G)
       (g_test_X G) (g_test_y G)"

subsection \<open>The search space\<close>

text \<open>
  The notebook declares the space with \<^verbatim>\<open>hp.loguniform("lr", np.log(1e-5), np.log(1e-1))\<close> and
  \<^verbatim>\<open>hp.uniform("momentum", 0.0, 1.0)\<close>. The space is only handed to the suggestion
  algorithm, which is library code. Its bounds are written as the real numbers the float
  literals stand for; nothing here computes with them.
\<close>

datatype domain = Loguniform real real | Uniform real real

definition space :: "(string \<times> domain) list" where
  "space = [(''lr'', Loguniform (ln (1 / 10 ^ 5)) (ln (1 / 10))),
            (''momentum'', Uniform 0 1)]"

subsection \<open>\<^verbatim>\<open>hyperopt.fmin\<close>\<close>

text \<open>
  \<^verbatim>\<open>fmin(fn, space, algo, max_evals, trials)\<close> with a fresh \<^verbatim>\<open>Trials()\<close>: \<open>max_evals\<close> times it
  asks \<open>algo\<close> for a configuration, given the space, the trials so far and the generator,
  evaluates \<open>fn\<close> on it and appends the configuration and the result to the trials. An
  exception of \<open>fn\<close> leaves \<open>fmin\<close> at once (\<^verbatim>\<open>catch_eval_exceptions\<close> is \<^verbatim>\<open>False\<close> unless
  the caller sets it). The suggestion algorithm (\<^verbatim>\<open>tpe.suggest\<close> in the notebook) is a
  parameter.
\<close>

type_synonym 'm trial = "(string \<times> real) list \<times> 'm result"

type_synonym ('m, 'r) suggest =
  "(string \<times> domain) list \<Rightarrow> 'm trial list \<Rightarrow> 'r \<Rightarrow> (string \<times> real) list \<times> 'r"

fun fmin_loop ::
  "((string \<times> real) list \<Rightarrow> ('m result, 'm, 's) tracked) \<Rightarrow> (string \<times> domain) list \<Rightarrow>
     ('m, 'r) suggest \<Rightarrow> nat \<Rightarrow> 'm trial list \<Rightarrow> 'r \<Rightarrow> ('m trial list, 'm, 's) tracked" where
  "fmin_loop fn sp algo 0 trials rng st = (Inr trials, st)"
| "fmin_loop fn sp algo (Suc n) trials rng st =
     (case algo sp trials rng of
        (cfg, rng1) \<Rightarrow>
          (case fn cfg st of
             (Inl e, st1) \<Rightarrow> (Inl e, st1)
           | (Inr r, st1) \<Rightarrow> fmin_loop fn sp algo n (trials @ [(cfg, r)]) rng1 st1))"

text \<open>\<^verbatim>\<open>numpy.argmin\<close> on a list without NaN: the index of the first least element.\<close>

fun argmin_from :: "nat \<Rightarrow> pyfloat \<Rightarrow> nat \<Rightarrow> pyfloat list \<Rightarrow> nat" where
  "argmin_from bi bv i [] = bi"
| "argmin_from bi bv i (x # xs) =
     (if float_lt x bv then argmin_from i x (Suc i) xs else argmin_from bi bv (Suc i) xs)"

definition np_argmin :: "pyfloat list \<Rightarrow> nat" where
  "np_argmin xs = (case xs of [] \<Rightarrow> 0 | x # rest \<Rightarrow> argmin_from 0 x 1 rest)"

text \<open>
  \<^verbatim>\<open>Trials.best_trial\<close>: the trial with the lowest non-NaN loss and status ok;
  \<^verbatim>\<open>AllTrialsFailed\<close> when there is none. \<^verbatim>\<open>Trials.argmin\<close>, which \<open>fmin\<close> returns, is that
  trial's configuration.
\<close>

definition best_trial :: "'m trial list \<Rightarrow> exn + 'm trial" where
  "best_trial trials =
     (let candidates = filter (\<lambda>t. status (snd t) = STATUS_OK \<and> loss (snd t) \<noteq> NaN) trials
      in if candidates = [] then Inl AllTrialsFailed
         else Inr (candidates ! np_argmin (map (\<lambda>t. loss (snd t)) candidates)))"

definition fmin ::
  "((string \<times> real) list \<Rightarrow> ('m result, 'm, 's) tracked) \<Rightarrow> (string \<times> domain) list \<Rightarrow>
     ('m, 'r) suggest \<Rightarrow> nat \<Rightarrow> 'r \<Rightarrow> ((string \<times> real) list \<times> 'm trial list, 'm, 's) tracked" where
  "fmin fn sp algo max_evals rng =
     bindM (fmin_loop fn sp algo max_evals [] rng) (\<lambda>trials.
     if trials = [] then (\<lambda>st. (Inl NoEvaluationTasks, st))
     else bindE (best_trial trials) (\<lambda>t. returnM (fst t, trials)))"

subsection \<open>The sweep\<close>

text \<open>\<^verbatim>\<open>best_run = sorted(trials.results, key = lambda x: x["loss"])[0]\<close>\<close>

definition best_run :: "'m result list \<Rightarrow> exn + 'm result" where
  "best_run results = index (py_sorted loss results) 0"

text \<open>
  The last cell, with the number of evaluations as a parameter (the notebook passes 12).
  It returns what the cell leaves in \<^verbatim>\<open>best\<close>, \<^verbatim>\<open>best_run\<close> and \<^verbatim>\<open>trials\<close>. The choice of the
  experiment (\<^verbatim>\<open>mlflow.set_experiment\<close>) and the two \<^verbatim>\<open>print\<close> calls are left out. No cell of
  the notebook calls the model registry.
\<close>

definition sweep ::
  "('x, 'y, 'm) keras \<Rightarrow> ('x, 'y, 's) globals \<Rightarrow> ('m, 'r) suggest \<Rightarrow> nat \<Rightarrow> 'r \<Rightarrow>
     ((string \<times> real) list \<times> 'm result \<times> 'm trial list, 'm, 's) tracked" where
  "sweep K G algo max_evals rng =
     with_run False
       (bindM (fmin (objective K G) space algo max_evals rng) (\<lambda>(best, trials).
        bindE (best_run (map snd trials)) (\<lambda>b.
        bindM (log_params best) (\<lambda>_.
        bindM (log_metric ''eval_rmse'' (loss b)) (\<lambda>_.
        bindM (log_model (model b) ''model'' (g_signature G) None) (\<lambda>_.
        returnM (best, b, trials)))))))"

section \<open>Vocabulary of the properties\<close>

text \<open>
  The first least element of a non-empty list \<open>b # xs\<close> under a comparison \<open>lt\<close>: a later
  element replaces the candidate only when it is strictly smaller.
\<close>

fun first_min :: "('a \<Rightarrow> 'a \<Rightarrow> bool) \<Rightarrow> 'a \<Rightarrow> 'a list \<Rightarrow> 'a" where
  "first_min lt b [] = b"
| "first_min lt b (x # xs) = first_min lt (if lt x b then x else b) xs"

text \<open>\<open>lt\<close> is a strict weak order on the set \<open>S\<close>.\<close>

definition swo :: "('a \<Rightarrow> 'a \<Rightarrow> bool) \<Rightarrow> 'a set \<Rightarrow> bool" where
  "swo lt S \<longleftrightarrow>
     (\<forall>a\<in>S. \<forall>b\<in>S. lt a b \<longrightarrow> \<not> lt b a) \<and>
     (\<forall>a\<in>S. \<forall>b\<in>S. \<forall>c\<in>S. lt a b \<longrightarrow> lt b c \<longrightarrow> lt a c) \<and>
     (\<forall>a\<in>S. \<forall>b\<in>S. \<forall>c\<in>S. \<not> lt a b \<longrightarrow> \<not> lt b c \<longrightarrow> \<not> lt a c)"

abbreviation ordered :: "('a \<Rightarrow> 'a \<Rightarrow> bool) \<Rightarrow> 'a list \<Rightarrow> bool" where
  "ordered lt xs \<equiv> sorted_wrt (\<lambda>a b. \<not> lt b a) xs"

text \<open>
  A computation that, run with a run on top of the active stack, only rewrites the logged
  parameters, metrics and artifacts of that run.
\<close>

definition logs_only :: "('a, 'm, 's) tracked \<Rightarrow> bool" where
  "logs_only body \<longleftrightarrow>
     (\<forall>st rid rest res st2. active st = rid # rest \<longrightarrow> body st = (res, st2) \<longrightarrow>
        (\<exists>ps ms as. st2 = st\<lparr>runs := (runs st)[rid := (runs st ! rid)
              \<lparr>run_params := ps, run_metrics := ms, run_artifacts := as\<rparr>]\<rparr>))"

text \<open>
  What one call of \<^verbatim>\<open>model_train\<close> does to the tracking state: nothing, when it raised before
  its run began, or one more run record, begun and ended, under the run that was active.
\<close>

definition trial_effect :: "('m, 's) mlflow \<Rightarrow> exn + 'a \<Rightarrow> ('m, 's) mlflow \<Rightarrow> bool" where
  "trial_effect st res st' \<longleftrightarrow>
     (st' = st \<and> isl res) \<or>
     (\<exists>r. st' = st\<lparr>runs := runs st @ [r], clock := clock st + 2\<rparr> \<and>
          run_parent r = (case active st of [] \<Rightarrow> None | p # _ \<Rightarrow> Some p) \<and>
          run_status r = (case res of Inl _ \<Rightarrow> FAILED | Inr _ \<Rightarrow> FINISHED) \<and>
          start_time r = clock st \<and> end_time r = Some (Suc (clock st)))"

text \<open>
  Runs of the parent \<open>p\<close>, recorded one after the other from time \<open>t\<close> on, each begun
  and ended before the next begins.
\<close>

fun nested_children :: "nat \<Rightarrow> nat \<Rightarrow> ('m, 's) run list \<Rightarrow> bool" where
  "nested_children p t [] = True"
| "nested_children p t (c # cs) =
     (run_parent c = Some p \<and> run_status c \<noteq> RUNNING \<and> start_time c = t \<and>
      end_time c = Some (Suc t) \<and> nested_children p (t + 2) cs)"

text \<open>A recorded trial is a configuration and the result \<open>objective\<close> returned on it.\<close>

definition evaluated :: "('x, 'y, 'm) keras \<Rightarrow> ('x, 'y, 's) globals \<Rightarrow> 'm trial \<Rightarrow> bool" where
  "evaluated K G t \<longleftrightarrow>
     (\<exists>s s' :: ('m, 's) mlflow. objective K G (fst t) s = (Inr (snd t), s'))"

text \<open>
  The search trial by trial. Along a list of recorded trials, \<open>rng_at\<close> is the generator
  state after the first \<open>k\<close> proposals and \<open>proposal\<close> is the configuration the algorithm
  proposes once the first \<open>k\<close> trials are recorded.
\<close>

fun rng_at :: "('m, 'r) suggest \<Rightarrow> (string \<times> domain) list \<Rightarrow> 'm trial list \<Rightarrow> 'r \<Rightarrow> nat \<Rightarrow> 'r" where
  "rng_at algo sp trials rng 0 = rng"
| "rng_at algo sp trials rng (Suc k) = snd (algo sp (take k trials) (rng_at algo sp trials rng k))"

definition proposal ::
  "('m, 'r) suggest \<Rightarrow> (string \<times> domain) list \<Rightarrow> 'm trial list \<Rightarrow> 'r \<Rightarrow> nat \<Rightarrow> (string \<times> real) list" where
  "proposal algo sp trials rng k = fst (algo sp (take k trials) (rng_at algo sp trials rng k))"

text \<open>The trainer raises \<open>e\<close> on a configuration.\<close>

definition raised :: "('x, 'y, 'm) keras \<Rightarrow> ('x, 'y, 's) globals \<Rightarrow> (string \<times> real) list \<Rightarrow> exn \<Rightarrow> bool" where
  "raised K G cfg e \<longleftrightarrow> (\<exists>s s' :: ('m, 's) mlflow. objective K G cfg s = (Inl e, s'))"

text \<open>
  \<open>trials\<close> is the record of a search all of whose trials returned: each configuration
  is the one proposed after the trials before it, and each result is what the trainer
  returned on it.
\<close>

definition history ::
  "('x, 'y, 'm) keras \<Rightarrow> ('x, 'y, 's) globals \<Rightarrow> ('m, 'r) suggest \<Rightarrow> (string \<times> domain) list \<Rightarrow> 'r \<Rightarrow>
     'm trial list \<Rightarrow> bool" where
  "history K G algo sp rng trials \<longleftrightarrow>
     (\<forall>k<length trials. fst (trials ! k) = proposal algo sp trials rng k \<and> evaluated K G (trials ! k))"

section \<open>A stub environment\<close>

text \<open>
  Concrete collaborators for running the model: a network whose fitted model is its
  learning rate and whose validation RMSE is that number, a suggestion algorithm that
  proposes the learning rates 1, 1/2, 1/3, ..., and a tracking client with no runs. The
  three other networks fail: one raises in \<^verbatim>\<open>fit\<close>, one is interrupted there, and one
  diverges, so that its evaluation returns NaN.
\<close>

definition stub_keras :: "(unit, unit, real) keras" where
  "stub_keras = \<lparr>build = (\<lambda>_. Inr 0), compile = (\<lambda>m lr mo. Inr lr),
         fit = (\<lambda>m _ _ _ _ _ _. Inr m),
         evaluate = (\<lambda>m _ _ _. Inr [Finite (m * m), Finite m])\<rparr>"

definition stub_globals :: "(unit, unit, unit) globals" where
  "stub_globals = \<lparr>g_train_X = (), g_train_y = (), g_validation_X = (), g_validation_y = (),
         g_test_X = (), g_test_y = (), g_signature = ()\<rparr>"

definition stub_suggest :: "(real, nat) suggest" where
  "stub_suggest = (\<lambda>sp trials rng. ([(''lr'', 1 / real (Suc rng)), (''momentum'', 1 / 2)], Suc rng))"

definition fresh :: "(real, unit) mlflow" where
  "fresh = \<lparr>runs = [], active = [], registry = [], clock = 0\<rparr>"

definition failing_keras :: "(unit, unit, real) keras" where
  "failing_keras = \<lparr>build = (\<lambda>_. Inr 0), compile = (\<lambda>m lr mo. Inr lr),
         fit = (\<lambda>m _ _ _ _ _ _. Inl (Raised ''ResourceExhaustedError'')),
         evaluate = (\<lambda>m _ _ _. Inr [Finite (m * m), Finite m])\<rparr>"

definition interrupted_keras :: "(unit, unit, real) keras" where
  "interrupted_keras = \<lparr>build = (\<lambda>_. Inr 0), compile = (\<lambda>m lr mo. Inr lr),
         fit = (\<lambda>m _ _ _ _ _ _. Inl KeyboardInterrupt),
         evaluate = (\<lambda>m _ _ _. Inr [Finite (m * m), Finite m])\<rparr>"

definition diverging_keras :: "(unit, unit, real) keras" where
  "diverging_keras = \<lparr>build = (\<lambda>_. Inr 0), compile = (\<lambda>m lr mo. Inr lr),
         fit = (\<lambda>m _ _ _ _ _ _. Inr m),
         evaluate = (\<lambda>m _ _ _. Inr [NaN, NaN])\<rparr>"

text \<open>The two trials of a sweep of two evaluations in the stub environment, and the tracking state it leaves.\<close>

definition trial_a :: "real trial" where
  "trial_a = ([(''lr'', 1), (''momentum'', 1 / 2)],
              \<lparr>loss = Finite 1, status = STATUS_OK, model = 1\<rparr>)"

definition trial_b :: "real trial" where
  "trial_b = ([(''lr'', 1 / 2), (''momentum'', 1 / 2)],
              \<lparr>loss = Finite (1 / 2), status = STATUS_OK, model = 1 / 2\<rparr>)"

definition swept :: "(real, unit) mlflow" where
  "swept =
     \<lparr>runs = [\<lparr>run_parent = None, run_params = [(''lr'', 1 / 2), (''momentum'', 1 / 2)],
                run_metrics = [(''eval_rmse'', Finite (1 / 2))], run_artifacts = [(''model'', 1 / 2, ())],
                run_status = FINISHED, start_time = 0, end_time = Some 5\<rparr>,
               \<lparr>run_parent = Some 0, run_params = [(''lr'', 1), (''momentum'', 1 / 2)],
                run_metrics = [(''eval_rmse'', Finite 1)], run_artifacts = [(''model'', 1, ())],
                run_status = FINISHED, start_time = 1, end_time = Some 2\<rparr>,
               \<lparr>run_parent = Some 0, run_params = [(''lr'', 1 / 2), (''momentum'', 1 / 2)],
                run_metrics = [(''eval_rmse'', Finite (1 / 2))], run_artifacts = [(''model'', 1 / 2, ())],
                run_status = FINISHED, start_time = 3, end_time = Some 4\<rparr>],
       active = [], registry = [], clock = 6\<rparr>"

text \<open>The tracking state a failed first trial leaves, with the exception \<open>fit\<close> raised.\<close>

definition aborted :: "(real, unit) mlflow" where
  "aborted =
     \<lparr>runs = [\<lparr>run_parent = None, run_params = [], run_metrics = [], run_artifacts = [],
                run_status = FAILED, start_time = 0, end_time = Some 3\<rparr>,
               \<lparr>run_parent = Some 0, run_params = [], run_metrics = [], run_artifacts = [],
                run_status = FAILED, start_time = 1, end_time = Some 2\<rparr>],
       active = [], registry = [], clock = 4\<rparr>"

text \<open>
  A network whose \<^verbatim>\<open>fit\<close> returns at the learning rate 1 and raises at any other: in the
  stub environment the first trial returns and the second raises. The tracking state that
  sweep leaves.
\<close>

definition flaky_keras :: "(unit, unit, real) keras" where
  "flaky_keras = \<lparr>build = (\<lambda>_. Inr 0), compile = (\<lambda>m lr mo. Inr lr),
         fit = (\<lambda>m _ _ _ _ _ _. if m = 1 then Inr m else Inl (Raised ''ResourceExhaustedError'')),
         evaluate = (\<lambda>m _ _ _. Inr [Finite (m * m), Finite m])\<rparr>"

definition aborted_second :: "(real, unit) mlflow" where
  "aborted_second =
     \<lparr>runs = [\<lparr>run_parent = None, run_params = [], run_metrics = [], run_artifacts = [],
                run_status = FAILED, start_time = 0, end_time = Some 5\<rparr>,
               \<lparr>run_parent = Some 0, run_params = [(''lr'', 1), (''momentum'', 1 / 2)],
                run_metrics = [(''eval_rmse'', Finite 1)], run_artifacts = [(''model'', 1, ())],
                run_status = FINISHED, start_time = 1, end_time = Some 2\<rparr>,
               \<lparr>run_parent = Some 0, run_params = [], run_metrics = [], run_artifacts = [],
                run_status = FAILED, start_time = 3, end_time = Some 4\<rparr>],
       active = [], registry = [], clock = 6\<rparr>"

text \<open>
  A network that diverges at the learning rate 1: its evaluation there is NaN. In the
  stub environment the first trial diverges and the second does not. The two trials of
  that sweep and the tracking state it leaves.
\<close>

definition unstable_keras :: "(unit, unit, real) keras" where
  "unstable_keras = \<lparr>build = (\<lambda>_. Inr 0), compile = (\<lambda>m lr mo. Inr lr),
         fit = (\<lambda>m _ _ _ _ _ _. Inr m),
         evaluate = (\<lambda>m _ _ _. if m = 1 then Inr [NaN, NaN] else Inr [Finite (m * m), Finite m])\<rparr>"

definition trial_nan :: "real trial" where
  "trial_nan = ([(''lr'', 1), (''momentum'', 1 / 2)],
              \<lparr>loss = NaN, status = STATUS_OK, model = 1\<rparr>)"

definition mislogged :: "(real, unit) mlflow" where
  "mislogged =
     \<lparr>runs = [\<lparr>run_parent = None, run_params = [(''lr'', 1 / 2), (''momentum'', 1 / 2)],
                run_metrics = [(''eval_rmse'', NaN)], run_artifacts = [(''model'', 1, ())],
                run_status = FINISHED, start_time = 0, end_time = Some 5\<rparr>,
               \<lparr>run_parent = Some 0, run_params = [(''lr'', 1), (''momentum'', 1 / 2)],
                run_metrics = [(''eval_rmse'', NaN)], run_artifacts = [(''model'', 1, ())],
                run_status = FINISHED, start_time = 1, end_time = Some 2\<rparr>,
               \<lparr>run_parent = Some 0, run_params = [(''lr'', 1 / 2), (''momentum'', 1 / 2)],
                run_metrics = [(''eval_rmse'', Finite (1 / 2))], run_artifacts = [(''model'', 1 / 2, ())],
                run_status = FINISHED, start_time = 3, end_time = Some 4\<rparr>],
       active = [], registry = [], clock = 6\<rparr>"

section \<open>Sorting: the head of \<^verbatim>\<open>sorted\<close> on comparable keys\<close>

text \<open>
  Where the comparison is a strict weak order on the elements of the list, the model of
  \<^verbatim>\<open>list.sort\<close> keeps its prefix ordered, and the head of the result is the first least
  element of the input.
\<close>

lemma swo_asym: "swo lt S \<Longrightarrow> a \<in> S \<Longrightarrow> b \<in> S \<Longrightarrow> lt a b \<Longrightarrow> \<not> lt b a"
  unfolding swo_def by blast

lemma swo_trans: "swo lt S \<Longrightarrow> a \<in> S \<Longrightarrow> b \<in> S \<Longrightarrow> c \<in> S \<Longrightarrow> lt a b \<Longrightarrow> lt b c \<Longrightarrow> lt a c"
  unfolding swo_def by blast

lemma swo_ntrans:
  "swo lt S \<Longrightarrow> a \<in> S \<Longrightarrow> b \<in> S \<Longrightarrow> c \<in> S \<Longrightarrow> \<not> lt a b \<Longrightarrow> \<not> lt b c \<Longrightarrow> \<not> lt a c"
  unfolding swo_def by blast

lemma swo_lt_le: "swo lt S \<Longrightarrow> a \<in> S \<Longrightarrow> b \<in> S \<Longrightarrow> c \<in> S \<Longrightarrow> lt a b \<Longrightarrow> \<not> lt c b \<Longrightarrow> lt a c"
  using swo_ntrans by metis

lemma bisect_spec:
  shows "swo lt S \<Longrightarrow> set ks \<subseteq> S \<Longrightarrow> pivot \<in> S \<Longrightarrow> ordered lt ks \<Longrightarrow>
         l \<le> r \<Longrightarrow> r \<le> length ks \<Longrightarrow>
         (\<forall>i<l. \<not> lt pivot (ks ! i)) \<Longrightarrow>
         (\<forall>i. r \<le> i \<and> i < length ks \<longrightarrow> lt pivot (ks ! i)) \<Longrightarrow>
         l \<le> bisect lt pivot ks l r \<and> bisect lt pivot ks l r \<le> r \<and>
         (\<forall>i<bisect lt pivot ks l r. \<not> lt pivot (ks ! i)) \<and>
         (\<forall>i. bisect lt pivot ks l r \<le> i \<and> i < length ks \<longrightarrow> lt pivot (ks ! i))"
proof (induction lt pivot ks l r rule: bisect.induct)
  case (1 lt pivot ks l r)
  note swo = "1.prems"(1) and sub = "1.prems"(2) and pv = "1.prems"(3) and ord = "1.prems"(4)
  note lr = "1.prems"(5) and rlen = "1.prems"(6) and lo0 = "1.prems"(7) and hi0 = "1.prems"(8)
  show ?case
  proof (cases "l < r")
    case False
    then have eq: "bisect lt pivot ks l r = l"
      by (subst bisect.simps) simp
    show ?thesis unfolding eq using False lr lo0 hi0 by auto
  next
    case True
    define p where "p = l + (r - l) div 2"
    have pl: "l \<le> p" and pr: "p < r" using True by (auto simp: p_def)
    have plen: "p < length ks" using pr rlen by simp
    have kp: "ks ! p \<in> S" using sub plen nth_mem by blast
    show ?thesis
    proof (cases "lt pivot (ks ! p)")
      case lt: True
      have hi: "\<forall>i. p \<le> i \<and> i < length ks \<longrightarrow> lt pivot (ks ! i)"
      proof (intro allI impI)
        fix i assume i: "p \<le> i \<and> i < length ks"
        have ki: "ks ! i \<in> S" using sub i nth_mem by blast
        show "lt pivot (ks ! i)"
        proof (cases "i = p")
          case True then show ?thesis using lt by simp
        next
          case False
          then have "p < i" using i by simp
          then have "\<not> lt (ks ! i) (ks ! p)"
            using ord i by (simp add: sorted_wrt_iff_nth_less)
          then show ?thesis using swo_lt_le [OF swo pv kp ki lt] by blast
        qed
      qed
      have IH: "l \<le> bisect lt pivot ks l p \<and> bisect lt pivot ks l p \<le> p \<and>
         (\<forall>i<bisect lt pivot ks l p. \<not> lt pivot (ks ! i)) \<and>
         (\<forall>i. bisect lt pivot ks l p \<le> i \<and> i < length ks \<longrightarrow> lt pivot (ks ! i))"
        using "1.IH"(1) [OF True p_def lt swo sub pv ord pl _ _ hi] plen lo0 by simp
      have eq: "bisect lt pivot ks l r = bisect lt pivot ks l p"
        using True lt by (simp add: bisect.simps [of lt pivot ks l r] p_def Let_def)
      show ?thesis unfolding eq using IH pr by auto
    next
      case nlt: False
      have lo: "\<forall>i<p + 1. \<not> lt pivot (ks ! i)"
      proof (intro allI impI)
        fix i assume i: "i < p + 1"
        have "i < length ks" using i plen by simp
        then have ki: "ks ! i \<in> S" using sub nth_mem by blast
        show "\<not> lt pivot (ks ! i)"
        proof (cases "i = p")
          case True then show ?thesis using nlt by simp
        next
          case False
          then have "i < p" using i by simp
          then have "\<not> lt (ks ! p) (ks ! i)"
            using ord plen by (simp add: sorted_wrt_iff_nth_less)
          then show ?thesis using swo_ntrans [OF swo pv kp ki nlt] by blast
        qed
      qed
      have IH: "p + 1 \<le> bisect lt pivot ks (p + 1) r \<and> bisect lt pivot ks (p + 1) r \<le> r \<and>
         (\<forall>i<bisect lt pivot ks (p + 1) r. \<not> lt pivot (ks ! i)) \<and>
         (\<forall>i. bisect lt pivot ks (p + 1) r \<le> i \<and> i < length ks \<longrightarrow> lt pivot (ks ! i))"
        using "1.IH"(2) [OF True p_def nlt swo sub pv ord _ _ lo] pr rlen hi0 by simp
      have eq: "bisect lt pivot ks l r = bisect lt pivot ks (p + 1) r"
        using True nlt by (simp add: bisect.simps [of lt pivot ks l r] p_def Let_def)
      show ?thesis unfolding eq using IH pl by auto
    qed
  qed
qed

lemma bisect_full:
  assumes "swo lt S" "set ks \<subseteq> S" "pivot \<in> S" "ordered lt ks"
  shows "bisect lt pivot ks 0 (length ks) \<le> length ks \<and>
         (\<forall>i<bisect lt pivot ks 0 (length ks). \<not> lt pivot (ks ! i)) \<and>
         (\<forall>i. bisect lt pivot ks 0 (length ks) \<le> i \<and> i < length ks \<longrightarrow> lt pivot (ks ! i))"
proof -
  have a: "(0::nat) \<le> length ks" and b: "length ks \<le> length ks"
    and c: "\<forall>i<0::nat. \<not> lt pivot (ks ! i)"
    by simp_all
  have d: "\<forall>i. length ks \<le> i \<and> i < length ks \<longrightarrow> lt pivot (ks ! i)"
  proof (intro allI impI)
    fix i assume "length ks \<le> i \<and> i < length ks"
    then have False by linarith
    then show "lt pivot (ks ! i)" ..
  qed
  show ?thesis
    using bisect_spec [OF assms a b c d] by blast
qed

lemma insert_ordered:
  assumes swo: "swo lt S" and sub: "set ks \<subseteq> S" and pv: "pivot \<in> S" and ord: "ordered lt ks"
  defines "m \<equiv> bisect lt pivot ks 0 (length ks)"
  shows "ordered lt (take m ks @ pivot # drop m ks)"
proof -
  have m: "m \<le> length ks" and lo: "\<forall>i<m. \<not> lt pivot (ks ! i)"
    and hi: "\<forall>i. m \<le> i \<and> i < length ks \<longrightarrow> lt pivot (ks ! i)"
    using bisect_full [OF swo sub pv ord] unfolding m_def by blast+
  have "ordered lt (take m ks @ drop m ks)"
    using ord by (simp only: append_take_drop_id)
  then have o1: "ordered lt (take m ks)" and o2: "ordered lt (drop m ks)"
    and o3: "\<forall>x\<in>set (take m ks). \<forall>y\<in>set (drop m ks). \<not> lt y x"
    unfolding sorted_wrt_append by blast+
  have a: "\<forall>x\<in>set (take m ks). \<not> lt pivot x"
  proof
    fix x assume "x \<in> set (take m ks)"
    then obtain j where j: "j < m" "j < length ks" "x = ks ! j"
      unfolding in_set_conv_nth by auto
    then show "\<not> lt pivot x" using lo by blast
  qed
  have b: "\<forall>y\<in>set (drop m ks). lt pivot y"
  proof
    fix y assume "y \<in> set (drop m ks)"
    then obtain j where j: "j < length ks - m" "y = ks ! (m + j)"
      unfolding in_set_conv_nth by auto
    have "m \<le> m + j \<and> m + j < length ks" using j(1) by simp
    then show "lt pivot y" using hi j(2) by blast
  qed
  have c: "\<forall>y\<in>set (drop m ks). \<not> lt y pivot"
  proof
    fix y assume y: "y \<in> set (drop m ks)"
    then have "y \<in> set ks" by (rule in_set_dropD)
    then have "y \<in> S" using sub by blast
    then show "\<not> lt y pivot" using b y swo_asym [OF swo pv] by blast
  qed
  have "ordered lt (pivot # drop m ks)" using o2 c by simp
  moreover have "\<forall>x\<in>set (take m ks). \<forall>y\<in>set (pivot # drop m ks). \<not> lt y x"
    using a o3 by simp
  ultimately show ?thesis
    using o1 unfolding sorted_wrt_append by blast
qed

lemma insert_hd:
  assumes swo: "swo lt S" and sub: "set ks \<subseteq> S" and pv: "pivot \<in> S" and ord: "ordered lt ks"
    and ne: "ks \<noteq> []"
  defines "m \<equiv> bisect lt pivot ks 0 (length ks)"
  shows "hd (take m ks @ pivot # drop m ks) = (if lt pivot (hd ks) then pivot else hd ks)"
proof -
  have m: "m \<le> length ks" and lo: "\<forall>i<m. \<not> lt pivot (ks ! i)"
    and hi: "\<forall>i. m \<le> i \<and> i < length ks \<longrightarrow> lt pivot (ks ! i)"
    using bisect_full [OF swo sub pv ord] unfolding m_def by blast+
  have h0: "hd ks = ks ! 0" using ne by (simp add: hd_conv_nth)
  show ?thesis
  proof (cases "m = 0")
    case True
    then have "lt pivot (ks ! 0)" using hi ne by simp
    then show ?thesis using True h0 by simp
  next
    case False
    then have "\<not> lt pivot (ks ! 0)" using lo by simp
    moreover have "hd (take m ks @ pivot # drop m ks) = hd ks"
    proof (cases ks)
      case Nil then show ?thesis using ne by simp
    next
      case (Cons k ks')
      obtain m' where "m = Suc m'" using False by (cases m) auto
      then show ?thesis using Cons by simp
    qed
    ultimately show ?thesis using h0 by simp
  qed
qed

lemma binarysort_hd:
  "swo lt S \<Longrightarrow> set pre \<subseteq> S \<Longrightarrow> set rest \<subseteq> S \<Longrightarrow> ordered lt pre \<Longrightarrow> pre \<noteq> [] \<Longrightarrow>
   binarysort lt pre rest \<noteq> [] \<and> hd (binarysort lt pre rest) = first_min lt (hd pre) rest"
proof (induction rest arbitrary: pre)
  case Nil
  then show ?case by simp
next
  case (Cons pivot rest)
  define m where "m = bisect lt pivot pre 0 (length pre)"
  define pre' where "pre' = take m pre @ pivot # drop m pre"
  have pv: "pivot \<in> S" and rs: "set rest \<subseteq> S" using Cons.prems(3) by auto
  have o: "ordered lt pre'"
    unfolding pre'_def m_def by (rule insert_ordered [OF Cons.prems(1,2) pv Cons.prems(4)])
  have h: "hd pre' = (if lt pivot (hd pre) then pivot else hd pre)"
    unfolding pre'_def m_def by (rule insert_hd [OF Cons.prems(1,2) pv Cons.prems(4,5)])
  have s: "set pre' \<subseteq> S"
  proof
    fix y assume "y \<in> set pre'"
    then have "y \<in> set (take m pre) \<or> y = pivot \<or> y \<in> set (drop m pre)"
      unfolding pre'_def by auto
    then have "y \<in> set pre \<or> y = pivot"
      using in_set_takeD in_set_dropD by fast
    then show "y \<in> S" using Cons.prems(2) pv by blast
  qed
  have ne: "pre' \<noteq> []" unfolding pre'_def by simp
  have "binarysort lt pre (pivot # rest) = binarysort lt pre' rest"
    by (simp add: pre'_def m_def Let_def)
  then show ?case
    using Cons.IH [OF Cons.prems(1) s rs o ne] h by simp
qed

lemma first_min_append:
  "first_min lt b (xs @ ys) = first_min lt (first_min lt b xs) ys"
  by (induction xs arbitrary: b) auto

lemma run_asc_le: "run_asc lt prev xs \<le> length xs"
  by (induction xs arbitrary: prev) auto

lemma run_desc_le: "run_desc lt prev xs \<le> length xs"
  by (induction xs arbitrary: prev) auto

lemma run_asc_ordered:
  "swo lt S \<Longrightarrow> prev \<in> S \<Longrightarrow> set xs \<subseteq> S \<Longrightarrow>
   ordered lt (prev # take (run_asc lt prev xs) xs)"
proof (induction xs arbitrary: prev)
  case Nil
  then show ?case by simp
next
  case (Cons x xs)
  show ?case
  proof (cases "lt x prev")
    case True
    then show ?thesis by simp
  next
    case False
    have x: "x \<in> S" and xs: "set xs \<subseteq> S" using Cons.prems by auto
    have IH: "ordered lt (x # take (run_asc lt x xs) xs)"
      by (rule Cons.IH [OF Cons.prems(1) x xs])
    have "\<forall>y\<in>set (take (run_asc lt x xs) xs). \<not> lt y prev"
    proof
      fix y assume y: "y \<in> set (take (run_asc lt x xs) xs)"
      then have "y \<in> set xs" by (rule in_set_takeD)
      then have yS: "y \<in> S" using xs by blast
      have "\<not> lt y x" using IH y by simp
      then show "\<not> lt y prev"
        using swo_ntrans [OF Cons.prems(1) yS x Cons.prems(2)] False by blast
    qed
    then show ?thesis using False IH by simp
  qed
qed

lemma run_asc_min:
  "swo lt S \<Longrightarrow> prev \<in> S \<Longrightarrow> b \<in> S \<Longrightarrow> set xs \<subseteq> S \<Longrightarrow> \<not> lt prev b \<Longrightarrow>
   first_min lt b (take (run_asc lt prev xs) xs) = b"
proof (induction xs arbitrary: prev)
  case Nil
  then show ?case by simp
next
  case (Cons x xs)
  show ?case
  proof (cases "lt x prev")
    case True
    then show ?thesis by simp
  next
    case False
    have x: "x \<in> S" and xs: "set xs \<subseteq> S" using Cons.prems by auto
    have nb: "\<not> lt x b"
      using swo_ntrans [OF Cons.prems(1) x Cons.prems(2,3) False Cons.prems(5)] .
    show ?thesis
      using False nb Cons.IH [OF Cons.prems(1) x Cons.prems(3) xs nb] by simp
  qed
qed

lemma run_desc_strict:
  "swo lt S \<Longrightarrow> prev \<in> S \<Longrightarrow> set xs \<subseteq> S \<Longrightarrow>
   sorted_wrt (\<lambda>a b. lt b a) (prev # take (run_desc lt prev xs) xs)"
proof (induction xs arbitrary: prev)
  case Nil
  then show ?case by simp
next
  case (Cons x xs)
  show ?case
  proof (cases "lt x prev")
    case False
    then show ?thesis by simp
  next
    case True
    have x: "x \<in> S" and xs: "set xs \<subseteq> S" using Cons.prems by auto
    have IH: "sorted_wrt (\<lambda>a b. lt b a) (x # take (run_desc lt x xs) xs)"
      by (rule Cons.IH [OF Cons.prems(1) x xs])
    have "\<forall>y\<in>set (take (run_desc lt x xs) xs). lt y prev"
    proof
      fix y assume y: "y \<in> set (take (run_desc lt x xs) xs)"
      then have "y \<in> set xs" by (rule in_set_takeD)
      then have yS: "y \<in> S" using xs by blast
      have "lt y x" using IH y by simp
      then show "lt y prev"
        using swo_trans [OF Cons.prems(1) yS x Cons.prems(2)] True by blast
    qed
    then show ?thesis using True IH by simp
  qed
qed

lemma run_desc_min:
  "first_min lt prev (take (run_desc lt prev xs) xs) = last (prev # take (run_desc lt prev xs) xs)"
  by (induction xs arbitrary: prev) auto

lemma list_sort_hd:
  assumes swo: "swo lt S" and sub: "set xs \<subseteq> S" and ne: "xs \<noteq> []"
  shows "list_sort lt xs \<noteq> [] \<and> hd (list_sort lt xs) = first_min lt (hd xs) (tl xs)"
proof (cases xs)
  case Nil
  then show ?thesis using ne by simp
next
  case (Cons x ys)
  note xs = Cons
  show ?thesis
  proof (cases ys)
    case Nil
    then show ?thesis using xs by (simp add: list_sort_def)
  next
    case (Cons y zs)
    have x: "x \<in> S" and y: "y \<in> S" and zs: "set zs \<subseteq> S" and ys: "set (y # zs) \<subseteq> S"
      using sub xs Cons by auto
    have len: "\<not> length xs < 2" using xs Cons by simp
    show ?thesis
    proof (cases "lt y x")
      case True
      define k where "k = run_desc lt y zs"
      define pre where "pre = rev (x # y # take k zs)"
      have cr: "count_run lt xs = (2 + k, True)"
        using True xs Cons by (simp add: k_def)
      have eq: "list_sort lt xs = binarysort lt pre (drop k zs)"
        using len cr xs Cons by (simp add: list_sort_def pre_def)
      have rd: "run_desc lt x (y # zs) = Suc k" using True by (simp add: k_def)
      have strict: "sorted_wrt (\<lambda>a b. lt b a) (x # y # take k zs)"
        using run_desc_strict [OF swo x ys] unfolding rd by simp
      have tk: "set (take k zs) \<subseteq> S" using zs set_take_subset [of k zs] by blast
      have sub_run: "set (x # y # take k zs) \<subseteq> S"
        using x y tk by simp
      have "sorted_wrt (\<lambda>a b. \<not> lt a b) (x # y # take k zs)"
      proof (rule sorted_wrt_mono_rel [OF _ strict])
        fix a b assume "a \<in> set (x # y # take k zs)" "b \<in> set (x # y # take k zs)" "lt b a"
        then show "\<not> lt a b" using swo_asym [OF swo] sub_run by blast
      qed
      then have o: "ordered lt pre" unfolding pre_def sorted_wrt_rev .
      have s: "set pre \<subseteq> S" using sub_run unfolding pre_def by simp
      have r: "set (drop k zs) \<subseteq> S" using zs set_drop_subset [of k zs] by blast
      have p: "pre \<noteq> []" unfolding pre_def by simp
      have h: "hd pre = first_min lt x (y # take k zs)"
        using run_desc_min [of lt x "y # zs"] rd
        by (simp add: pre_def hd_rev del: first_min.simps)
      have "first_min lt (hd pre) (drop k zs) = first_min lt x ((y # take k zs) @ drop k zs)"
        unfolding h first_min_append ..
      also have "\<dots> = first_min lt x (y # zs)" by simp
      finally show ?thesis
        using binarysort_hd [OF swo s r o p] eq xs Cons by simp
    next
      case False
      define k where "k = run_asc lt y zs"
      define pre where "pre = x # y # take k zs"
      have cr: "count_run lt xs = (2 + k, False)"
        using False xs Cons by (simp add: k_def)
      have eq: "list_sort lt xs = binarysort lt pre (drop k zs)"
        using len cr xs Cons by (simp add: list_sort_def pre_def)
      have ra: "run_asc lt x (y # zs) = Suc k" using False by (simp add: k_def)
      have o: "ordered lt pre"
        using run_asc_ordered [OF swo x ys] unfolding ra pre_def by simp
      have tk: "set (take k zs) \<subseteq> S" using zs set_take_subset [of k zs] by blast
      have s: "set pre \<subseteq> S"
        using x y tk unfolding pre_def by simp
      have r: "set (drop k zs) \<subseteq> S" using zs set_drop_subset [of k zs] by blast
      have p: "pre \<noteq> []" unfolding pre_def by simp
      have nxx: "\<not> lt x x" using swo_asym [OF swo x x] by blast
      have m: "first_min lt x (y # take k zs) = x"
        using run_asc_min [OF swo x x ys nxx] ra by (simp del: first_min.simps)
      have "first_min lt (hd pre) (drop k zs) = first_min lt (first_min lt x (y # take k zs)) (drop k zs)"
        unfolding m by (simp add: pre_def)
      also have "\<dots> = first_min lt x ((y # take k zs) @ drop k zs)"
        unfolding first_min_append ..
      also have "\<dots> = first_min lt x (y # zs)" by simp
      finally show ?thesis
        using binarysort_hd [OF swo s r o p] eq xs Cons by simp
    qed
  qed
qed

lemma first_min_spec:
  "swo lt S \<Longrightarrow> set pre \<subseteq> S \<Longrightarrow> set ys \<subseteq> S \<Longrightarrow>
   i < length pre \<Longrightarrow> pre ! i = b \<Longrightarrow>
   (\<forall>j<length pre. \<not> lt (pre ! j) b) \<Longrightarrow> (\<forall>j<i. lt b (pre ! j)) \<Longrightarrow>
   \<exists>i'<length (pre @ ys). (pre @ ys) ! i' = first_min lt b ys \<and>
      (\<forall>j<length (pre @ ys). \<not> lt ((pre @ ys) ! j) (first_min lt b ys)) \<and>
      (\<forall>j<i'. lt (first_min lt b ys) ((pre @ ys) ! j))"
proof (induction ys arbitrary: pre i b)
  case Nil
  then show ?case by auto
next
  case (Cons y ys)
  have y: "y \<in> S" and ys: "set ys \<subseteq> S" using Cons.prems(3) by auto
  have b: "b \<in> S" using Cons.prems(2,4,5) nth_mem by blast
  have sub': "set (pre @ [y]) \<subseteq> S" using Cons.prems(2) y by simp
  have app: "(pre @ [y]) @ ys = pre @ y # ys" by simp
  show ?case
  proof (cases "lt y b")
    case True
    have i': "length pre < length (pre @ [y])" by simp
    have at: "(pre @ [y]) ! length pre = y" by simp
    have lo: "\<forall>j<length (pre @ [y]). \<not> lt ((pre @ [y]) ! j) y"
    proof (intro allI impI)
      fix j assume j: "j < length (pre @ [y])"
      show "\<not> lt ((pre @ [y]) ! j) y"
      proof (cases "j < length pre")
        case False
        then have "j = length pre" using j by simp
        then show ?thesis using swo_asym [OF Cons.prems(1) y y] by auto
      next
        case jl: True
        have pj: "pre ! j \<in> S" using Cons.prems(2) jl nth_mem by blast
        have "\<not> lt (pre ! j) b" using Cons.prems(6) jl by blast
        then have "\<not> lt (pre ! j) y"
          using swo_trans [OF Cons.prems(1) pj y b] True by blast
        then show ?thesis using jl by (simp add: nth_append)
      qed
    qed
    have ea: "\<forall>j<length pre. lt y ((pre @ [y]) ! j)"
    proof (intro allI impI)
      fix j assume jl: "j < length pre"
      have pj: "pre ! j \<in> S" using Cons.prems(2) jl nth_mem by blast
      have "\<not> lt (pre ! j) b" using Cons.prems(6) jl by blast
      then have "lt y (pre ! j)" using swo_lt_le [OF Cons.prems(1) y b pj True] by blast
      then show "lt y ((pre @ [y]) ! j)" using jl by (simp add: nth_append)
    qed
    show ?thesis
      using Cons.IH [OF Cons.prems(1) sub' ys i' at lo ea] True
      unfolding app by simp
  next
    case False
    have i': "i < length (pre @ [y])" using Cons.prems(4) by simp
    have at: "(pre @ [y]) ! i = b" using Cons.prems(4,5) by (simp add: nth_append)
    have lo: "\<forall>j<length (pre @ [y]). \<not> lt ((pre @ [y]) ! j) b"
    proof (intro allI impI)
      fix j assume j: "j < length (pre @ [y])"
      show "\<not> lt ((pre @ [y]) ! j) b"
      proof (cases "j < length pre")
        case False
        then have "j = length pre" using j by simp
        then show ?thesis using \<open>\<not> lt y b\<close> by simp
      next
        case True
        then show ?thesis using Cons.prems(6) by (simp add: nth_append)
      qed
    qed
    have ea: "\<forall>j<i. lt b ((pre @ [y]) ! j)"
      using Cons.prems(4,7) by (simp add: nth_append)
    show ?thesis
      using Cons.IH [OF Cons.prems(1) sub' ys i' at lo ea] False
      unfolding app by simp
  qed
qed

lemma float_lt_swo: "swo (\<lambda>a b. float_lt (key a) (key b)) {r. key r \<noteq> NaN}"
proof -
  have asym: "\<And>a b. float_lt a b \<Longrightarrow> \<not> float_lt b a"
    subgoal for a b by (cases a; cases b) auto
    done
  have trans: "\<And>a b c. float_lt a b \<Longrightarrow> float_lt b c \<Longrightarrow> float_lt a c"
    subgoal for a b c by (cases a; cases b; cases c) auto
    done
  have ntrans: "\<And>a b c. a \<noteq> NaN \<Longrightarrow> b \<noteq> NaN \<Longrightarrow> c \<noteq> NaN \<Longrightarrow>
      \<not> float_lt a b \<Longrightarrow> \<not> float_lt b c \<Longrightarrow> \<not> float_lt a c"
    subgoal for a b c by (cases a; cases b; cases c) auto
    done
  show ?thesis
    unfolding swo_def using asym trans ntrans by blast
qed

lemma best_run_hd:
  assumes ne: "results \<noteq> []" and nn: "\<forall>r\<in>set results. loss r \<noteq> NaN"
  shows "best_run results =
           Inr (first_min (\<lambda>a b. float_lt (loss a) (loss b)) (hd results) (tl results))"
proof -
  have sub: "set results \<subseteq> {r. loss r \<noteq> NaN}" using nn by blast
  have "py_sorted loss results \<noteq> [] \<and>
        hd (py_sorted loss results) =
          first_min (\<lambda>a b. float_lt (loss a) (loss b)) (hd results) (tl results)"
    unfolding py_sorted_def by (rule list_sort_hd [OF float_lt_swo sub ne])
  then show ?thesis
    unfolding best_run_def index_def by (cases "py_sorted loss results") auto
qed

lemma best_run_first_least:
  fixes results :: "'m result list"
  assumes ne: "results \<noteq> []" and nn: "\<forall>r\<in>set results. loss r \<noteq> NaN"
  shows "\<exists>i<length results. best_run results = Inr (results ! i) \<and>
           (\<forall>j<length results. float_le (loss (results ! i)) (loss (results ! j))) \<and>
           (\<forall>j<i. float_lt (loss (results ! i)) (loss (results ! j)))"
proof -
  define lt where "lt = (\<lambda>(a :: 'm result) (b :: 'm result). float_lt (loss a) (loss b))"
  define S where "S = {r :: 'm result. loss r \<noteq> NaN}"
  obtain x ys where xs: "results = x # ys" using ne by (cases results) auto
  have swo: "swo lt S" unfolding lt_def S_def by (rule float_lt_swo)
  have x: "set [x] \<subseteq> S" and ys: "set ys \<subseteq> S" using nn xs unfolding S_def by auto
  have b: "best_run results = Inr (first_min lt x ys)"
    using best_run_hd [OF ne nn] xs unfolding lt_def by simp
  have i0: "(0::nat) < length [x]" and at: "[x] ! 0 = x" by simp_all
  have xS: "x \<in> S" using x by simp
  have "\<not> lt x x" using swo_asym [OF swo xS xS] by blast
  then have lo: "\<forall>j<length [x]. \<not> lt ([x] ! j) x" by simp
  have ea: "\<forall>j<0::nat. lt x ([x] ! j)" by simp
  obtain i where i: "i < length results" "results ! i = first_min lt x ys"
    and lo': "\<forall>j<length results. \<not> lt (results ! j) (first_min lt x ys)"
    and ea': "\<forall>j<i. lt (first_min lt x ys) (results ! j)"
    using first_min_spec [OF swo x ys i0 at lo ea] xs by auto
  have nan: "\<forall>j<length results. loss (results ! j) \<noteq> NaN"
    using nn nth_mem by blast
  have "\<forall>j<length results. float_le (loss (results ! i)) (loss (results ! j))"
    using lo' nan i unfolding float_le_def lt_def by auto
  moreover have "\<forall>j<i. float_lt (loss (results ! i)) (loss (results ! j))"
    using ea' i(2) unfolding lt_def by simp
  ultimately show ?thesis using b i by auto
qed

section \<open>The tracking state through a trial and through the sweep\<close>

lemma on_active_top:
  "active st = rid # rest \<Longrightarrow>
   on_active f st = (Inr (), st\<lparr>runs := (runs st)[rid := f (runs st ! rid)]\<rparr>)"
  by (simp add: on_active_def get_or_start_run_def)

lemma with_run_nested:
  "with_run True body st =
     (case body (st\<lparr>runs := runs st @
                   [\<lparr>run_parent = (case active st of [] \<Rightarrow> None | p # _ \<Rightarrow> Some p),
                     run_params = [], run_metrics = [], run_artifacts = [],
                     run_status = RUNNING, start_time = clock st, end_time = None\<rparr>],
               active := length (runs st) # active st,
               clock := Suc (clock st)\<rparr>) of
        (res, st2) \<Rightarrow> (res, end_run (case res of Inl _ \<Rightarrow> FAILED | Inr _ \<Rightarrow> FINISHED) st2))"
  by (simp add: with_run_def start_run_def split: prod.splits sum.splits)

lemma logs_onlyI:
  assumes "\<And>st rid rest res st2. active st = rid # rest \<Longrightarrow> body st = (res, st2) \<Longrightarrow>
        \<exists>ps ms as. st2 = st\<lparr>runs := (runs st)[rid := (runs st ! rid)
              \<lparr>run_params := ps, run_metrics := ms, run_artifacts := as\<rparr>]\<rparr>"
  shows "logs_only body"
  unfolding logs_only_def using assms by blast

lemma logs_onlyD:
  assumes "logs_only body" "active st = rid # rest" "body st = (res, st2)"
  shows "\<exists>ps ms as. st2 = st\<lparr>runs := (runs st)[rid := (runs st ! rid)
              \<lparr>run_params := ps, run_metrics := ms, run_artifacts := as\<rparr>]\<rparr>"
  using assms unfolding logs_only_def by blast

lemma logs_only_return: "logs_only (returnM v)"
proof (rule logs_onlyI)
  fix st rid rest res st2
  assume "active st = rid # rest" "returnM v st = (res, st2)"
  then have "st2 = st" by (simp add: returnM_def)
  then have "st2 = st\<lparr>runs := (runs st)[rid := (runs st ! rid)
              \<lparr>run_params := run_params (runs st ! rid), run_metrics := run_metrics (runs st ! rid),
               run_artifacts := run_artifacts (runs st ! rid)\<rparr>]\<rparr>"
    by simp
  then show "\<exists>ps ms as. st2 = st\<lparr>runs := (runs st)[rid := (runs st ! rid)
              \<lparr>run_params := ps, run_metrics := ms, run_artifacts := as\<rparr>]\<rparr>"
    by blast
qed

lemma logs_only_raise: "logs_only (\<lambda>st. (Inl e, st))"
proof (rule logs_onlyI)
  fix st rid rest res st2
  assume "active st = rid # rest" "(Inl e, st) = (res, st2)"
  then have "st2 = st" by simp
  then have "st2 = st\<lparr>runs := (runs st)[rid := (runs st ! rid)
              \<lparr>run_params := run_params (runs st ! rid), run_metrics := run_metrics (runs st ! rid),
               run_artifacts := run_artifacts (runs st ! rid)\<rparr>]\<rparr>"
    by simp
  then show "\<exists>ps ms as. st2 = st\<lparr>runs := (runs st)[rid := (runs st ! rid)
              \<lparr>run_params := ps, run_metrics := ms, run_artifacts := as\<rparr>]\<rparr>"
    by blast
qed

lemma logs_only_on_active:
  assumes "\<And>r. \<exists>ps ms as. f r = r\<lparr>run_params := ps, run_metrics := ms, run_artifacts := as\<rparr>"
  shows "logs_only (on_active f)"
proof (rule logs_onlyI)
  fix st rid rest res st2
  assume a: "active st = rid # rest" and b: "on_active f st = (res, st2)"
  obtain ps ms as where f: "f (runs st ! rid) = (runs st ! rid)\<lparr>run_params := ps, run_metrics := ms, run_artifacts := as\<rparr>"
    using assms by blast
  have "st2 = st\<lparr>runs := (runs st)[rid := f (runs st ! rid)]\<rparr>"
    using b unfolding on_active_top [OF a] by simp
  then show "\<exists>ps ms as. st2 = st\<lparr>runs := (runs st)[rid := (runs st ! rid)
              \<lparr>run_params := ps, run_metrics := ms, run_artifacts := as\<rparr>]\<rparr>"
    unfolding f by blast
qed

lemma logs_only_log_params: "logs_only (log_params ps)"
  unfolding log_params_def
proof (rule logs_only_on_active)
  fix r :: "('a, 'b) run"
  have "r\<lparr>run_params := run_params r @ ps\<rparr> =
        r\<lparr>run_params := run_params r @ ps, run_metrics := run_metrics r, run_artifacts := run_artifacts r\<rparr>"
    by simp
  then show "\<exists>psa ms as. r\<lparr>run_params := run_params r @ ps\<rparr> =
       r\<lparr>run_params := psa, run_metrics := ms, run_artifacts := as\<rparr>" by blast
qed

lemma logs_only_log_metric: "logs_only (log_metric name v)"
  unfolding log_metric_def
proof (rule logs_only_on_active)
  fix r :: "('a, 'b) run"
  have "r\<lparr>run_metrics := run_metrics r @ [(name, v)]\<rparr> =
        r\<lparr>run_params := run_params r, run_metrics := run_metrics r @ [(name, v)], run_artifacts := run_artifacts r\<rparr>"
    by simp
  then show "\<exists>ps ms as. r\<lparr>run_metrics := run_metrics r @ [(name, v)]\<rparr> =
       r\<lparr>run_params := ps, run_metrics := ms, run_artifacts := as\<rparr>" by blast
qed

lemma log_model_None:
  "log_model mdl path sg None = on_active (\<lambda>r. r\<lparr>run_artifacts := run_artifacts r @ [(path, mdl, sg)]\<rparr>)"
  by (rule ext) (simp add: log_model_def split: prod.splits)

lemma logs_only_log_model: "logs_only (log_model mdl path sg None)"
  unfolding log_model_None
proof (rule logs_only_on_active)
  fix r :: "('a, 'b) run"
  have "r\<lparr>run_artifacts := run_artifacts r @ [(path, mdl, sg)]\<rparr> =
        r\<lparr>run_params := run_params r, run_metrics := run_metrics r, run_artifacts := run_artifacts r @ [(path, mdl, sg)]\<rparr>"
    by simp
  then show "\<exists>ps ms as. r\<lparr>run_artifacts := run_artifacts r @ [(path, mdl, sg)]\<rparr> =
       r\<lparr>run_params := ps, run_metrics := ms, run_artifacts := as\<rparr>" by blast
qed

lemma logs_only_bindE:
  assumes "\<And>v. logs_only (f v)"
  shows "logs_only (bindE x f)"
proof (cases x)
  case (Inl e)
  then have "bindE x f = (\<lambda>st. (Inl e, st))" by (simp add: bindE_def fun_eq_iff)
  then show ?thesis using logs_only_raise by simp
next
  case (Inr v)
  then have "bindE x f = f v" by (simp add: bindE_def fun_eq_iff)
  then show ?thesis using assms by simp
qed

lemma logs_only_bindM:
  assumes m: "logs_only m" and f: "\<And>v. logs_only (f v)"
  shows "logs_only (bindM m f)"
proof (rule logs_onlyI)
  fix st rid rest res st2
  assume a: "active st = rid # rest" and b: "bindM m f st = (res, st2)"
  obtain r1 st1 where m1: "m st = (r1, st1)" by (cases "m st") auto
  obtain ps ms as where st1: "st1 = st\<lparr>runs := (runs st)[rid := (runs st ! rid)
              \<lparr>run_params := ps, run_metrics := ms, run_artifacts := as\<rparr>]\<rparr>"
    using logs_onlyD [OF m a m1] by blast
  show "\<exists>ps ms as. st2 = st\<lparr>runs := (runs st)[rid := (runs st ! rid)
              \<lparr>run_params := ps, run_metrics := ms, run_artifacts := as\<rparr>]\<rparr>"
  proof (cases r1)
    case (Inl e)
    then have "st2 = st1" using b m1 by (simp add: bindM_def)
    then show ?thesis using st1 by blast
  next
    case (Inr v)
    then have fv: "f v st1 = (res, st2)" using b m1 by (simp add: bindM_def)
    have a1: "active st1 = rid # rest" using a st1 by simp
    obtain ps' ms' as' where st2: "st2 = st1\<lparr>runs := (runs st1)[rid := (runs st1 ! rid)
              \<lparr>run_params := ps', run_metrics := ms', run_artifacts := as'\<rparr>]\<rparr>"
      using logs_onlyD [OF f a1 fv] by blast
    have "st2 = st\<lparr>runs := (runs st)[rid := (runs st ! rid)
              \<lparr>run_params := ps', run_metrics := ms', run_artifacts := as'\<rparr>]\<rparr>"
    proof (cases "rid < length (runs st)")
      case True
      then show ?thesis unfolding st2 st1 by simp
    next
      case False
      then have "length (runs st) \<le> rid" by simp
      then show ?thesis unfolding st2 st1 by (simp add: list_update_beyond)
    qed
    then show ?thesis by blast
  qed
qed

lemma bindE_cases:
  assumes "bindE x f st = (res, st')"
  shows "(\<exists>e. x = Inl e \<and> res = Inl e \<and> st' = st) \<or> (\<exists>v. x = Inr v \<and> f v st = (res, st'))"
  using assms by (cases x) (auto simp: bindE_def)

lemma with_run_nested_effect:
  fixes body :: "('a, 'm, 's) tracked"
  assumes lo: "logs_only body" and w: "with_run True body st = (res, st')"
  shows "\<exists>r. st' = st\<lparr>runs := runs st @ [r], clock := clock st + 2\<rparr> \<and>
             run_parent r = (case active st of [] \<Rightarrow> None | p # _ \<Rightarrow> Some p) \<and>
             run_status r = (case res of Inl _ \<Rightarrow> FAILED | Inr _ \<Rightarrow> FINISHED) \<and>
             start_time r = clock st \<and> end_time r = Some (Suc (clock st))"
proof -
  define r0 :: "('m, 's) run" where
    "r0 = \<lparr>run_parent = (case active st of [] \<Rightarrow> None | p # _ \<Rightarrow> Some p),
            run_params = [], run_metrics = [], run_artifacts = [],
            run_status = RUNNING, start_time = clock st, end_time = None\<rparr>"
  define st1 where
    "st1 = st\<lparr>runs := runs st @ [r0], active := length (runs st) # active st, clock := Suc (clock st)\<rparr>"
  obtain res2 st2 where b: "body st1 = (res2, st2)" by (cases "body st1") auto
  have a1: "active st1 = length (runs st) # active st" by (simp add: st1_def)
  obtain ps ms as where st2: "st2 = st1\<lparr>runs := (runs st1)[length (runs st) := (runs st1 ! length (runs st))
              \<lparr>run_params := ps, run_metrics := ms, run_artifacts := as\<rparr>]\<rparr>"
    using logs_onlyD [OF lo a1 b] by blast
  have w': "with_run True body st =
      (res2, end_run (case res2 of Inl _ \<Rightarrow> FAILED | Inr _ \<Rightarrow> FINISHED) st2)"
    unfolding with_run_nested using b unfolding st1_def r0_def by simp
  have res: "res = res2" and st': "st' = end_run (case res2 of Inl _ \<Rightarrow> FAILED | Inr _ \<Rightarrow> FINISHED) st2"
    using w w' by auto
  define s where "s = (case res2 of Inl _ \<Rightarrow> FAILED | Inr _ \<Rightarrow> FINISHED)"
  define r where "r = r0\<lparr>run_params := ps, run_metrics := ms, run_artifacts := as,
                         run_status := s, end_time := Some (Suc (clock st))\<rparr>"
  have "st' = st\<lparr>runs := runs st @ [r], clock := clock st + 2\<rparr>"
    unfolding st' s_def [symmetric] st2 st1_def r_def end_run_def by simp
  moreover have "run_parent r = (case active st of [] \<Rightarrow> None | p # _ \<Rightarrow> Some p)"
    "start_time r = clock st" "end_time r = Some (Suc (clock st))"
    "run_status r = (case res of Inl _ \<Rightarrow> FAILED | Inr _ \<Rightarrow> FINISHED)"
    unfolding r_def r0_def s_def res by simp_all
  ultimately show ?thesis by blast
qed

lemma logs_only_train_body:
  "logs_only
     (bindE (fit K m1 train_X train_y validation_X validation_y epochs 64) (\<lambda>m2.
      bindE (evaluate K m2 validation_X validation_y 64) (\<lambda>eval_result.
      bindE (index eval_result 1) (\<lambda>eval_rmse.
      bindM (log_params params) (\<lambda>_.
      bindM (log_metric ''eval_rmse'' eval_rmse) (\<lambda>_.
      bindM (log_model m2 ''model'' sg None) (\<lambda>_.
      returnM \<lparr>loss = eval_rmse, status = STATUS_OK, model = m2\<rparr>)))))))"
  by (intro logs_only_bindE logs_only_bindM logs_only_log_params logs_only_log_metric
        logs_only_log_model logs_only_return)

lemma bindE_trial_effectE:
  "bindE x f st = (res, st') \<Longrightarrow> (\<And>v. f v st = (res, st') \<Longrightarrow> trial_effect st res st') \<Longrightarrow>
   trial_effect st res st'"
  by (cases x) (auto simp: bindE_def trial_effect_def)

lemma model_train_effect:
  assumes mt: "model_train K sg params epochs train_X train_y validation_X validation_y test_X test_y st = (res, st')"
  shows "trial_effect st res st'"
  using mt unfolding model_train_def
  apply -
  apply (erule bindE_trial_effectE)
  apply (erule bindE_trial_effectE)
  apply (erule bindE_trial_effectE)
  apply (erule bindE_trial_effectE)
  apply (drule with_run_nested_effect [OF logs_only_train_body])
  apply (simp add: trial_effect_def)
  done

lemma nested_children_nth:
  "nested_children p t cs \<Longrightarrow> k < length cs \<Longrightarrow>
   run_parent (cs ! k) = Some p \<and> run_status (cs ! k) \<noteq> RUNNING \<and>
   start_time (cs ! k) = t + 2 * k \<and> end_time (cs ! k) = Some (t + 2 * k + 1)"
proof (induction cs arbitrary: t k)
  case Nil
  then show ?case by simp
next
  case (Cons c cs)
  show ?case
  proof (cases k)
    case 0
    then show ?thesis using Cons.prems by simp
  next
    case (Suc k')
    then have "k' < length cs" using Cons.prems by simp
    moreover have "nested_children p (t + 2) cs" using Cons.prems by simp
    ultimately show ?thesis using Cons.IH [of "t + 2" k'] Suc by simp
  qed
qed

lemma nested_children_sealed:
  "nested_children p t cs \<Longrightarrow>
   list_all (\<lambda>c. run_parent c = Some p \<and> run_status c \<noteq> RUNNING \<and> end_time c \<noteq> None) cs"
  by (induction cs arbitrary: t) auto

lemma objective_effect:
  "objective K G cfg st = (res, st') \<Longrightarrow> trial_effect st res st'"
  unfolding objective_def by (rule model_train_effect)

lemma fmin_loop_effect:
  fixes st :: "('m, 's) mlflow"
  shows "fmin_loop (objective K G) sp algo n trials rng st = (res, st') \<Longrightarrow> active st = p # rest \<Longrightarrow>
   \<exists>cs. st' = st\<lparr>runs := runs st @ cs, clock := clock st + 2 * length cs\<rparr> \<and>
        nested_children p (clock st) cs \<and> length cs \<le> n \<and>
        (\<forall>trials'. res = Inr trials' \<longrightarrow>
           length cs = n \<and> (\<forall>c\<in>set cs. run_status c = FINISHED) \<and>
           (\<exists>new. trials' = trials @ new \<and> length new = n \<and> (\<forall>t\<in>set new. evaluated K G t)))"
proof (induction n arbitrary: trials rng st)
  case 0
  then have "st' = st\<lparr>runs := runs st @ [], clock := clock st + 2 * length ([] :: ('m, 's) run list)\<rparr>"
    and "res = Inr trials" by auto
  then show ?case
    by (intro exI [of _ "[]"]) simp
next
  case (Suc n)
  obtain cfg rng1 where al: "algo sp trials rng = (cfg, rng1)" by (cases "algo sp trials rng") auto
  obtain r1 st1 where ob: "objective K G cfg st = (r1, st1)" by (cases "objective K G cfg st") auto
  have te: "trial_effect st r1 st1" by (rule objective_effect [OF ob])
  show ?case
  proof (cases r1)
    case (Inl e)
    then have res: "res = Inl e" and st': "st' = st1" using Suc.prems(1) al ob by auto
    from te show ?thesis unfolding trial_effect_def
    proof (elim disjE exE conjE)
      assume "st1 = st"
      then have "st' = st\<lparr>runs := runs st @ [], clock := clock st + 2 * length ([] :: ('m, 's) run list)\<rparr>"
        using st' by simp
      then show ?thesis using res by (intro exI [of _ "[]"]) simp
    next
      fix r assume r: "st1 = st\<lparr>runs := runs st @ [r], clock := clock st + 2\<rparr>"
        "run_parent r = (case active st of [] \<Rightarrow> None | p # x \<Rightarrow> Some p)"
        "run_status r = (case r1 of Inl x \<Rightarrow> FAILED | Inr x \<Rightarrow> FINISHED)"
        "start_time r = clock st" "end_time r = Some (Suc (clock st))"
      have "st' = st\<lparr>runs := runs st @ [r], clock := clock st + 2 * length [r]\<rparr>"
        using st' r(1) by simp
      moreover have "nested_children p (clock st) [r]"
        using r Suc.prems(2) Inl by simp
      ultimately show ?thesis using res by (intro exI [of _ "[r]"]) simp
    qed
  next
    case (Inr v)
    then have rec: "fmin_loop (objective K G) sp algo n (trials @ [(cfg, v)]) rng1 st1 = (res, st')"
      using Suc.prems(1) al ob by simp
    from te Inr obtain r where r: "st1 = st\<lparr>runs := runs st @ [r], clock := clock st + 2\<rparr>"
        "run_parent r = Some p" "run_status r = FINISHED"
        "start_time r = clock st" "end_time r = Some (Suc (clock st))"
      unfolding trial_effect_def using Suc.prems(2) by auto
    have a1: "active st1 = p # rest" using r(1) Suc.prems(2) by simp
    obtain cs where cs: "st' = st1\<lparr>runs := runs st1 @ cs, clock := clock st1 + 2 * length cs\<rparr>"
      "nested_children p (clock st1) cs" "length cs \<le> n"
      "\<forall>trials'. res = Inr trials' \<longrightarrow>
           length cs = n \<and> (\<forall>c\<in>set cs. run_status c = FINISHED) \<and>
           (\<exists>new. trials' = (trials @ [(cfg, v)]) @ new \<and> length new = n \<and> (\<forall>t\<in>set new. evaluated K G t))"
      using Suc.IH [OF rec a1] by blast
    have ev: "evaluated K G (cfg, v)"
      unfolding evaluated_def using ob Inr by auto
    have 1: "st' = st\<lparr>runs := runs st @ (r # cs), clock := clock st + 2 * length (r # cs)\<rparr>"
      unfolding cs(1) r(1) by simp
    have 2: "nested_children p (clock st) (r # cs)"
      using r cs(2) by simp
    have 3: "length (r # cs) \<le> Suc n" using cs(3) by simp
    have 4: "\<forall>trials'. res = Inr trials' \<longrightarrow>
           length (r # cs) = Suc n \<and> (\<forall>c\<in>set (r # cs). run_status c = FINISHED) \<and>
           (\<exists>new. trials' = trials @ new \<and> length new = Suc n \<and> (\<forall>t\<in>set new. evaluated K G t))"
    proof (intro allI impI)
      fix trials' assume "res = Inr trials'"
      then obtain new where n: "length cs = n" "\<forall>c\<in>set cs. run_status c = FINISHED"
        "trials' = (trials @ [(cfg, v)]) @ new" "length new = n" "\<forall>t\<in>set new. evaluated K G t"
        using cs(4) by blast
      have "trials' = trials @ ((cfg, v) # new)" using n(3) by simp
      moreover have "length ((cfg, v) # new) = Suc n" using n(4) by simp
      moreover have "\<forall>t\<in>set ((cfg, v) # new). evaluated K G t" using n(5) ev by simp
      ultimately have "\<exists>new. trials' = trials @ new \<and> length new = Suc n \<and> (\<forall>t\<in>set new. evaluated K G t)"
        by blast
      then show "length (r # cs) = Suc n \<and> (\<forall>c\<in>set (r # cs). run_status c = FINISHED) \<and>
           (\<exists>new. trials' = trials @ new \<and> length new = Suc n \<and> (\<forall>t\<in>set new. evaluated K G t))"
        using n(1,2) r(3) by simp
    qed
    show ?thesis using 1 2 3 4 by blast
  qed
qed

lemma fmin_loop_returns:
  assumes "\<forall>trials rng s. \<not> isl (fst (fn (fst (algo sp trials rng)) s))"
  shows "\<not> isl (fst (fmin_loop fn sp algo n trials rng st))"
proof (induction n arbitrary: trials rng st)
  case 0
  then show ?case by simp
next
  case (Suc n)
  obtain cfg rng1 where al: "algo sp trials rng = (cfg, rng1)" by (cases "algo sp trials rng") auto
  obtain r1 st1 where f: "fn cfg st = (r1, st1)" by (cases "fn cfg st") auto
  have "\<not> isl r1" using assms [rule_format, of trials rng st] al f by simp
  then obtain v where "r1 = Inr v" by (cases r1) auto
  then show ?case using al f Suc.IH by simp
qed

lemma fmin_effect:
  fixes st :: "('m, 's) mlflow"
  assumes f: "fmin (objective K G) sp algo n rng st = (res, st')" and act: "active st = p # rest"
  shows "\<exists>cs. st' = st\<lparr>runs := runs st @ cs, clock := clock st + 2 * length cs\<rparr> \<and>
        nested_children p (clock st) cs \<and> length cs \<le> n \<and>
        (\<forall>best trials. res = Inr (best, trials) \<longrightarrow>
           length cs = n \<and> (\<forall>c\<in>set cs. run_status c = FINISHED) \<and>
           length trials = n \<and> trials \<noteq> [] \<and> (\<forall>t\<in>set trials. evaluated K G t) \<and>
           (\<exists>t. best_trial trials = Inr t \<and> best = fst t)) \<and>
        ((\<forall>trials rng (s :: ('m, 's) mlflow). \<not> isl (fst (objective K G (fst (algo sp trials rng)) s))) \<longrightarrow>
           length cs = n \<and> (\<forall>c\<in>set cs. run_status c = FINISHED))"
proof -
  obtain r1 st1 where l: "fmin_loop (objective K G) sp algo n [] rng st = (r1, st1)"
    by (cases "fmin_loop (objective K G) sp algo n [] rng st") auto
  obtain cs where cs: "st1 = st\<lparr>runs := runs st @ cs, clock := clock st + 2 * length cs\<rparr>"
    "nested_children p (clock st) cs" "length cs \<le> n"
    "\<forall>trials'. r1 = Inr trials' \<longrightarrow>
           length cs = n \<and> (\<forall>c\<in>set cs. run_status c = FINISHED) \<and>
           (\<exists>new. trials' = [] @ new \<and> length new = n \<and> (\<forall>t\<in>set new. evaluated K G t))"
    using fmin_loop_effect [OF l act] by blast
  have st': "st' = st1"
    using f l unfolding fmin_def
    by (auto simp: bindM_def bindE_def returnM_def split: sum.splits if_splits)
  have inr: "\<forall>best trials. res = Inr (best, trials) \<longrightarrow>
           length cs = n \<and> (\<forall>c\<in>set cs. run_status c = FINISHED) \<and>
           length trials = n \<and> trials \<noteq> [] \<and> (\<forall>t\<in>set trials. evaluated K G t) \<and>
           (\<exists>t. best_trial trials = Inr t \<and> best = fst t)"
  proof (intro allI impI)
    fix best trials assume r: "res = Inr (best, trials)"
    have r1: "r1 = Inr trials" and ne: "trials \<noteq> []"
      and bt: "\<exists>t. best_trial trials = Inr t \<and> best = fst t"
      using f l r unfolding fmin_def
      by (auto simp: bindM_def bindE_def returnM_def split: sum.splits if_splits)
    show "length cs = n \<and> (\<forall>c\<in>set cs. run_status c = FINISHED) \<and>
           length trials = n \<and> trials \<noteq> [] \<and> (\<forall>t\<in>set trials. evaluated K G t) \<and>
           (\<exists>t. best_trial trials = Inr t \<and> best = fst t)"
      using cs(4) r1 ne bt by auto
  qed
  have nv: "(\<forall>trials rng (s :: ('m, 's) mlflow). \<not> isl (fst (objective K G (fst (algo sp trials rng)) s))) \<longrightarrow>
           length cs = n \<and> (\<forall>c\<in>set cs. run_status c = FINISHED)"
  proof
    assume never: "(\<forall>trials rng (s :: ('m, 's) mlflow). \<not> isl (fst (objective K G (fst (algo sp trials rng)) s)))"
    have "\<not> isl r1"
      using fmin_loop_returns [where fn = "objective K G" and algo = algo and sp = sp, OF never, of n "[]" rng st] l
      by simp
    then obtain trials' where "r1 = Inr trials'" by (cases r1) auto
    then show "length cs = n \<and> (\<forall>c\<in>set cs. run_status c = FINISHED)"
      using cs(4) by blast
  qed
  have e1: "st' = st\<lparr>runs := runs st @ cs, clock := clock st + 2 * length cs\<rparr>"
    using cs(1) st' by simp
  show ?thesis
    by (intro exI conjI) (rule e1, rule cs(2), rule cs(3), rule inr, rule nv)
qed

lemma log_best_effect:
  assumes act: "active st = rid # rest" and len: "rid < length (runs st)"
  shows "bindE (best_run rs) (\<lambda>b.
           bindM (log_params best) (\<lambda>_.
           bindM (log_metric ''eval_rmse'' (loss b)) (\<lambda>_.
           bindM (log_model (model b) ''model'' sg None) (\<lambda>_.
           returnM (best, b, trials))))) st =
         (case best_run rs of
            Inl e \<Rightarrow> (Inl e, st)
          | Inr b \<Rightarrow>
              (Inr (best, b, trials),
               st\<lparr>runs := (runs st)[rid := (runs st ! rid)
                     \<lparr>run_params := run_params (runs st ! rid) @ best,
                      run_metrics := run_metrics (runs st ! rid) @ [(''eval_rmse'', loss b)],
                      run_artifacts := run_artifacts (runs st ! rid) @ [(''model'', model b, sg)]\<rparr>]\<rparr>))"
  using act len
  by (simp add: bindE_def bindM_def log_params_def log_metric_def log_model_None on_active_top
      returnM_def split: sum.splits)

lemma bindM_Inr: "m st = (Inr v, st1) \<Longrightarrow> bindM m f st = f v st1"
  by (simp add: bindM_def)

lemma bindM_Inl: "m st = (Inl e, st1) \<Longrightarrow> bindM m f st = (Inl e, st1)"
  by (simp add: bindM_def)

lemma sweep_active:
  "active st \<noteq> [] \<Longrightarrow> sweep K G algo n rng st = (Inl RunAlreadyActive, st)"
  by (simp add: sweep_def with_run_def start_run_def)

lemma sweep_effect:
  fixes st :: "('m, 's) mlflow"
  assumes sw: "sweep K G algo n rng st = (res, st')" and act: "active st = []"
  shows "\<exists>top cs. st' = st\<lparr>runs := runs st @ top # cs, clock := clock st + 2 + 2 * length cs\<rparr> \<and>
     run_parent top = None \<and> start_time top = clock st \<and>
     end_time top = Some (clock st + 1 + 2 * length cs) \<and>
     run_status top = (case res of Inl _ \<Rightarrow> FAILED | Inr _ \<Rightarrow> FINISHED) \<and>
     nested_children (length (runs st)) (Suc (clock st)) cs \<and> length cs \<le> n \<and>
     (\<forall>best b trials. res = Inr (best, b, trials) \<longrightarrow>
        length cs = n \<and> (\<forall>c\<in>set cs. run_status c = FINISHED) \<and>
        length trials = n \<and> trials \<noteq> [] \<and> (\<forall>t\<in>set trials. evaluated K G t) \<and>
        best_run (map snd trials) = Inr b \<and> (\<exists>t. best_trial trials = Inr t \<and> best = fst t) \<and>
        run_params top = best \<and> run_metrics top = [(''eval_rmse'', loss b)] \<and>
        run_artifacts top = [(''model'', model b, g_signature G)]) \<and>
     ((\<forall>trials rng (s :: ('m, 's) mlflow). \<not> isl (fst (objective K G (fst (algo space trials rng)) s))) \<longrightarrow>
        length cs = n \<and> (\<forall>c\<in>set cs. run_status c = FINISHED))"
proof -
  define top0 :: "('m, 's) run" where
    "top0 = \<lparr>run_parent = None, run_params = [], run_metrics = [], run_artifacts = [],
             run_status = RUNNING, start_time = clock st, end_time = None\<rparr>"
  define st1 where
    "st1 = st\<lparr>runs := runs st @ [top0], active := [length (runs st)], clock := Suc (clock st)\<rparr>"
  define body where
    "body = bindM (fmin (objective K G) space algo n rng) (\<lambda>(best, trials).
        bindE (best_run (map snd trials)) (\<lambda>b.
        bindM (log_params best) (\<lambda>_.
        bindM (log_metric ''eval_rmse'' (loss b)) (\<lambda>_.
        bindM (log_model (model b) ''model'' (g_signature G) None) (\<lambda>_.
        returnM (best, b, trials))))))"
  have start: "start_run False st = (Inr (length (runs st)), st1)"
    using act by (simp add: start_run_def st1_def top0_def)
  obtain r2 st2 where b: "body st1 = (r2, st2)" by (cases "body st1") auto
  have sw': "sweep K G algo n rng st =
      (r2, end_run (case r2 of Inl _ \<Rightarrow> FAILED | Inr _ \<Rightarrow> FINISHED) st2)"
    unfolding sweep_def with_run_def body_def [symmetric] start using b
    by (simp split: sum.splits)
  have res: "res = r2" and st': "st' = end_run (case r2 of Inl _ \<Rightarrow> FAILED | Inr _ \<Rightarrow> FINISHED) st2"
    using sw sw' by auto
  have a1: "active st1 = length (runs st) # []" by (simp add: st1_def)
  obtain rf stf where f: "fmin (objective K G) space algo n rng st1 = (rf, stf)"
    by (cases "fmin (objective K G) space algo n rng st1") auto
  obtain cs where cs: "stf = st1\<lparr>runs := runs st1 @ cs, clock := clock st1 + 2 * length cs\<rparr>"
    "nested_children (length (runs st)) (clock st1) cs" "length cs \<le> n"
    "\<forall>best trials. rf = Inr (best, trials) \<longrightarrow>
           length cs = n \<and> (\<forall>c\<in>set cs. run_status c = FINISHED) \<and>
           length trials = n \<and> trials \<noteq> [] \<and> (\<forall>t\<in>set trials. evaluated K G t) \<and>
           (\<exists>t. best_trial trials = Inr t \<and> best = fst t)"
    "(\<forall>trials rng (s :: ('m, 's) mlflow). \<not> isl (fst (objective K G (fst (algo space trials rng)) s))) \<longrightarrow>
           length cs = n \<and> (\<forall>c\<in>set cs. run_status c = FINISHED)"
    using fmin_effect [OF f a1] by blast
  have af: "active stf = length (runs st) # []" and lf: "length (runs st) < length (runs stf)"
    and rf_runs: "runs stf = runs st @ top0 # cs" and cf: "clock stf = Suc (clock st) + 2 * length cs"
    unfolding cs(1) st1_def by simp_all
  have nc: "nested_children (length (runs st)) (Suc (clock st)) cs"
    using cs(2) by (simp add: st1_def)
  define s where "s = (case r2 of Inl _ \<Rightarrow> FAILED | Inr _ \<Rightarrow> FINISHED)"
  have fin: "\<And>stx topx. runs stx = runs st @ topx # cs \<Longrightarrow> active stx = [length (runs st)] \<Longrightarrow>
      clock stx = Suc (clock st) + 2 * length cs \<Longrightarrow> registry stx = registry st \<Longrightarrow>
      mlflow.more stx = mlflow.more st \<Longrightarrow>
      end_run s stx = st\<lparr>runs := runs st @ topx\<lparr>run_status := s, end_time := Some (clock st + 1 + 2 * length cs)\<rparr> # cs,
                         clock := clock st + 2 + 2 * length cs\<rparr>"
    using act by (simp add: end_run_def)
  have regf: "registry stf = registry st" and moref: "mlflow.more stf = mlflow.more st"
    unfolding cs(1) st1_def by simp_all
  show ?thesis
  proof (cases rf)
    case (Inl e)
    then have "body st1 = (Inl e, stf)" unfolding body_def using f by (simp add: bindM_Inl)
    then have r2: "r2 = Inl e" and st2: "st2 = stf" using b by auto
    have s: "s = FAILED" unfolding s_def r2 by simp
    have "st' = st\<lparr>runs := runs st @ top0\<lparr>run_status := FAILED, end_time := Some (clock st + 1 + 2 * length cs)\<rparr> # cs,
                         clock := clock st + 2 + 2 * length cs\<rparr>"
      using fin [OF rf_runs _ cf regf moref] af unfolding st' s_def [symmetric] st2 s by simp
    moreover have "res = Inl e" using res r2 by simp
    ultimately show ?thesis
      using nc cs(3) cs(5)
      by (intro exI [of _ "top0\<lparr>run_status := FAILED, end_time := Some (clock st + 1 + 2 * length cs)\<rparr>"]
            exI [of _ cs]) (simp add: top0_def)
  next
    case (Inr bt)
    obtain best trials where bt: "bt = (best, trials)" by (cases bt) auto
    have props: "length cs = n" "\<forall>c\<in>set cs. run_status c = FINISHED"
           "length trials = n" "trials \<noteq> []" "\<forall>t\<in>set trials. evaluated K G t"
           "\<exists>t. best_trial trials = Inr t \<and> best = fst t"
      using cs(4) Inr bt by blast+
    have body_eq: "body st1 =
         (case best_run (map snd trials) of
            Inl e \<Rightarrow> (Inl e, stf)
          | Inr b \<Rightarrow>
              (Inr (best, b, trials),
               stf\<lparr>runs := (runs stf)[length (runs st) := (runs stf ! length (runs st))
                     \<lparr>run_params := run_params (runs stf ! length (runs st)) @ best,
                      run_metrics := run_metrics (runs stf ! length (runs st)) @ [(''eval_rmse'', loss b)],
                      run_artifacts := run_artifacts (runs stf ! length (runs st)) @ [(''model'', model b, g_signature G)]\<rparr>]\<rparr>))"
    proof -
      have f': "fmin (objective K G) space algo n rng st1 = (Inr (best, trials), stf)"
        using f Inr bt by simp
      show ?thesis
        unfolding body_def
          bindM_Inr [where m = "fmin (objective K G) space algo n rng" and st = st1, OF f']
        using log_best_effect [OF af lf, of "map snd trials" best "g_signature G" trials] by simp
    qed
    show ?thesis
    proof (cases "best_run (map snd trials)")
      case (Inl e)
      then have r2: "r2 = Inl e" and st2: "st2 = stf" using b body_eq by auto
      have s: "s = FAILED" unfolding s_def r2 by simp
      have "st' = st\<lparr>runs := runs st @ top0\<lparr>run_status := FAILED, end_time := Some (clock st + 1 + 2 * length cs)\<rparr> # cs,
                         clock := clock st + 2 + 2 * length cs\<rparr>"
        using fin [OF rf_runs _ cf regf moref] af unfolding st' s_def [symmetric] st2 s by simp
      moreover have "res = Inl e" using res r2 by simp
      ultimately show ?thesis
        using nc cs(3) cs(5)
        by (intro exI [of _ "top0\<lparr>run_status := FAILED, end_time := Some (clock st + 1 + 2 * length cs)\<rparr>"]
              exI [of _ cs]) (simp add: top0_def)
    next
      case (Inr bb)
      define top1 where "top1 = top0\<lparr>run_params := best, run_metrics := [(''eval_rmse'', loss bb)],
                      run_artifacts := [(''model'', model bb, g_signature G)]\<rparr>"
      have r2: "r2 = Inr (best, bb, trials)"
        and st2: "st2 = stf\<lparr>runs := runs st @ top1 # cs\<rparr>"
        using b body_eq Inr unfolding rf_runs top1_def by (auto simp: top0_def)
      have s: "s = FINISHED" unfolding s_def r2 by simp
      have "st' = st\<lparr>runs := runs st @ top1\<lparr>run_status := FINISHED, end_time := Some (clock st + 1 + 2 * length cs)\<rparr> # cs,
                         clock := clock st + 2 + 2 * length cs\<rparr>"
        using fin [of st2 top1] af cf regf moref unfolding st' s_def [symmetric] st2 s by simp
      moreover have "res = Inr (best, bb, trials)" using res r2 by simp
      ultimately show ?thesis
        using nc cs(3) cs(5) props Inr
        by (intro exI [of _ "top1\<lparr>run_status := FINISHED, end_time := Some (clock st + 1 + 2 * length cs)\<rparr>"]
              exI [of _ cs]) (simp add: top1_def top0_def)
    qed
  qed
qed

lemma sweep_first_trial_raises:
  fixes st :: "('m, 's) mlflow"
  assumes act: "active st = []"
    and al: "algo space [] rng = (cfg, rng1)"
    and ob: "objective K G cfg (snd (start_run False st)) = (Inl e, s2)"
  shows "sweep K G algo (Suc n) rng st = (Inl e, end_run FAILED s2)"
proof -
  obtain st1 where start: "start_run False st = (Inr (length (runs st)), st1)"
    using act by (simp add: start_run_def)
  have ob': "objective K G cfg st1 = (Inl e, s2)" using ob start by simp
  have l: "fmin_loop (objective K G) space algo (Suc n) [] rng st1 = (Inl e, s2)"
    using al ob' by simp
  have f: "fmin (objective K G) space algo (Suc n) rng st1 = (Inl e, s2)"
    unfolding fmin_def using l by (simp add: bindM_Inl)
  show ?thesis
    unfolding sweep_def with_run_def start using f by (simp add: bindM_Inl)
qed

section \<open>The result of a trial, and the two ways of choosing the best\<close>

lemma bindE_InrE:
  assumes "bindE x f st = (Inr r, st')"
  obtains v where "x = Inr v" "f v st = (Inr r, st')"
  using assms by (cases x) (auto simp: bindE_def)

lemma bindM_InrE:
  assumes "bindM m f st = (Inr r, st')"
  obtains v st1 where "m st = (Inr v, st1)" "f v st1 = (Inr r, st')"
  using assms by (auto simp: bindM_def split: prod.splits sum.splits)

lemma with_run_InrE:
  assumes "with_run nested body st = (Inr r, st')"
  obtains st1 st2 where "body st1 = (Inr r, st2)"
  using assms by (auto simp: with_run_def split: prod.splits sum.splits)

lemma model_train_result:
  assumes mt: "model_train K sg params epochs train_X train_y validation_X validation_y test_X test_y st = (Inr r, st')"
  shows "status r = STATUS_OK \<and>
         (\<exists>m0 lr momentum m1 eval_result.
            build K train_X = Inr m0 \<and> getitem params ''lr'' = Inr lr \<and>
            getitem params ''momentum'' = Inr momentum \<and> compile K m0 lr momentum = Inr m1 \<and>
            fit K m1 train_X train_y validation_X validation_y epochs 64 = Inr (model r) \<and>
            evaluate K (model r) validation_X validation_y 64 = Inr eval_result \<and>
            index eval_result 1 = Inr (loss r))"
  using mt unfolding model_train_def
  apply -
  apply (erule bindE_InrE)+
  apply (erule with_run_InrE)
  apply (erule bindE_InrE)+
  apply (erule bindM_InrE)+
  apply (auto simp: returnM_def)
  done

lemma evaluated_result:
  assumes "evaluated K G t"
  shows "status (snd t) = STATUS_OK \<and>
         (\<exists>eval_result.
            evaluate K (model (snd t)) (g_validation_X G) (g_validation_y G) 64 = Inr eval_result \<and>
            index eval_result 1 = Inr (loss (snd t)))"
proof -
  obtain s s' where "objective K G (fst t) s = (Inr (snd t), s')"
    using assms unfolding evaluated_def by blast
  then have "model_train K (g_signature G) (fst t) 3 (g_train_X G) (g_train_y G)
      (g_validation_X G) (g_validation_y G) (g_test_X G) (g_test_y G) s = (Inr (snd t), s')"
    unfolding objective_def .
  from model_train_result [OF this] show ?thesis by blast
qed

lemma argmin_from_spec:
  "swo lt S \<Longrightarrow> set pre \<subseteq> S \<Longrightarrow> set ys \<subseteq> S \<Longrightarrow> lt = float_lt \<Longrightarrow>
   i < length pre \<Longrightarrow> pre ! i = b \<Longrightarrow>
   (\<forall>j<length pre. \<not> lt (pre ! j) b) \<Longrightarrow> (\<forall>j<i. lt b (pre ! j)) \<Longrightarrow>
   argmin_from i b (length pre) ys < length (pre @ ys) \<and>
   (\<forall>j<length (pre @ ys). \<not> lt ((pre @ ys) ! j) ((pre @ ys) ! argmin_from i b (length pre) ys)) \<and>
   (\<forall>j<argmin_from i b (length pre) ys.
       lt ((pre @ ys) ! argmin_from i b (length pre) ys) ((pre @ ys) ! j))"
proof (induction ys arbitrary: pre i b)
  case Nil
  then show ?case by simp
next
  case (Cons y ys)
  have y: "y \<in> S" and ys: "set ys \<subseteq> S" using Cons.prems(3) by auto
  have b: "b \<in> S" using Cons.prems(2,5,6) nth_mem by blast
  have sub': "set (pre @ [y]) \<subseteq> S" using Cons.prems(2) y by simp
  have app: "(pre @ [y]) @ ys = pre @ y # ys" by simp
  have len: "length (pre @ [y]) = Suc (length pre)" by simp
  show ?case
  proof (cases "lt y b")
    case True
    have i': "length pre < length (pre @ [y])" by simp
    have at: "(pre @ [y]) ! length pre = y" by simp
    have lo: "\<forall>j<length (pre @ [y]). \<not> lt ((pre @ [y]) ! j) y"
    proof (intro allI impI)
      fix j assume j: "j < length (pre @ [y])"
      show "\<not> lt ((pre @ [y]) ! j) y"
      proof (cases "j < length pre")
        case False
        then have "j = length pre" using j by simp
        then show ?thesis using swo_asym [OF Cons.prems(1) y y] by auto
      next
        case jl: True
        have pj: "pre ! j \<in> S" using Cons.prems(2) jl nth_mem by blast
        have "\<not> lt (pre ! j) b" using Cons.prems(7) jl by blast
        then have "\<not> lt (pre ! j) y"
          using swo_trans [OF Cons.prems(1) pj y b] True by blast
        then show ?thesis using jl by (simp add: nth_append)
      qed
    qed
    have ea: "\<forall>j<length pre. lt y ((pre @ [y]) ! j)"
    proof (intro allI impI)
      fix j assume jl: "j < length pre"
      have pj: "pre ! j \<in> S" using Cons.prems(2) jl nth_mem by blast
      have "\<not> lt (pre ! j) b" using Cons.prems(7) jl by blast
      then have "lt y (pre ! j)" using swo_lt_le [OF Cons.prems(1) y b pj True] by blast
      then show "lt y ((pre @ [y]) ! j)" using jl by (simp add: nth_append)
    qed
    have step: "argmin_from i b (length pre) (y # ys) = argmin_from (length pre) y (length (pre @ [y])) ys"
      using True Cons.prems(4) by simp
    show ?thesis
      using Cons.IH [OF Cons.prems(1) sub' ys Cons.prems(4) i' at lo ea]
      unfolding app step .
  next
    case False
    have i': "i < length (pre @ [y])" using Cons.prems(5) by simp
    have at: "(pre @ [y]) ! i = b" using Cons.prems(5,6) by (simp add: nth_append)
    have lo: "\<forall>j<length (pre @ [y]). \<not> lt ((pre @ [y]) ! j) b"
    proof (intro allI impI)
      fix j assume j: "j < length (pre @ [y])"
      show "\<not> lt ((pre @ [y]) ! j) b"
      proof (cases "j < length pre")
        case False
        then have "j = length pre" using j by simp
        then show ?thesis using \<open>\<not> lt y b\<close> by simp
      next
        case True
        then show ?thesis using Cons.prems(7) by (simp add: nth_append)
      qed
    qed
    have ea: "\<forall>j<i. lt b ((pre @ [y]) ! j)"
      using Cons.prems(5,8) by (simp add: nth_append)
    have step: "argmin_from i b (length pre) (y # ys) = argmin_from i b (length (pre @ [y])) ys"
      using False Cons.prems(4) by simp
    show ?thesis
      using Cons.IH [OF Cons.prems(1) sub' ys Cons.prems(4) i' at lo ea]
      unfolding app step .
  qed
qed

lemma float_lt_swo_id: "swo float_lt {x. x \<noteq> NaN}"
  using float_lt_swo [of "\<lambda>x. x"] by simp

lemma np_argmin_spec:
  assumes ne: "xs \<noteq> []" and nn: "NaN \<notin> set xs"
  shows "np_argmin xs < length xs \<and>
         (\<forall>j<length xs. \<not> float_lt (xs ! j) (xs ! np_argmin xs)) \<and>
         (\<forall>j<np_argmin xs. float_lt (xs ! np_argmin xs) (xs ! j))"
proof -
  obtain x ys where xs: "xs = x # ys" using ne by (cases xs) auto
  have x: "set [x] \<subseteq> {x. x \<noteq> NaN}" and ys: "set ys \<subseteq> {x. x \<noteq> NaN}"
    using nn xs by auto
  have xS: "x \<in> {x. x \<noteq> NaN}" using x by simp
  have "\<not> float_lt x x" using swo_asym [OF float_lt_swo_id xS xS] by blast
  then have lo: "\<forall>j<length [x]. \<not> float_lt ([x] ! j) x" by simp
  have ea: "\<forall>j<0::nat. float_lt x ([x] ! j)" by simp
  have i0: "(0::nat) < length [x]" and at: "[x] ! 0 = x" by simp_all
  have eq: "np_argmin (x # ys) = argmin_from 0 x (length [x]) ys"
    by (simp add: np_argmin_def)
  have app: "[x] @ ys = x # ys" by simp
  show ?thesis
    unfolding xs eq
    using argmin_from_spec [OF float_lt_swo_id x ys refl i0 at lo ea]
    unfolding app .
qed

lemma first_least_unique:
  assumes "i < n" "i' < n"
    and "\<forall>j<n. \<not> lt (f j) (f i)" "\<forall>j<i. lt (f i) (f j)"
    and "\<forall>j<n. \<not> lt (f j) (f i')" "\<forall>j<i'. lt (f i') (f j)"
  shows "i = (i' :: nat)"
proof (rule ccontr)
  assume "i \<noteq> i'"
  then consider "i < i'" | "i' < i" by linarith
  then show False
  proof cases
    case 1
    then have "lt (f i') (f i)" using assms(6) by blast
    then show False using assms(3,2) by blast
  next
    case 2
    then have "lt (f i) (f i')" using assms(4) by blast
    then show False using assms(5,1) by blast
  qed
qed

lemma best_agree:
  fixes trials :: "'m trial list"
  assumes ne: "trials \<noteq> []" and ok: "\<forall>t\<in>set trials. status (snd t) = STATUS_OK"
    and nn: "\<forall>t\<in>set trials. loss (snd t) \<noteq> NaN"
    and bt: "best_trial trials = Inr t" and br: "best_run (map snd trials) = Inr b"
  shows "\<exists>i<length trials. trials ! i = t \<and> snd t = b \<and>
           (\<forall>j<length trials. float_le (loss b) (loss (snd (trials ! j)))) \<and>
           (\<forall>j<i. float_lt (loss b) (loss (snd (trials ! j))))"
proof -
  define ks where "ks = map (\<lambda>t. loss (snd t)) trials"
  define i1 where "i1 = np_argmin ks"
  have cand: "filter (\<lambda>t. status (snd t) = STATUS_OK \<and> loss (snd t) \<noteq> NaN) trials = trials"
    using ok nn by (simp add: filter_id_conv)
  have t: "t = trials ! i1"
    using bt ne unfolding best_trial_def Let_def cand i1_def ks_def by simp
  have kne: "ks \<noteq> []" and knn: "NaN \<notin> set ks" and klen: "length ks = length trials"
    using ne nn unfolding ks_def by auto
  have a: "i1 < length trials" "\<forall>j<length trials. \<not> float_lt (ks ! j) (ks ! i1)"
    "\<forall>j<i1. float_lt (ks ! i1) (ks ! j)"
    using np_argmin_spec [OF kne knn] unfolding i1_def [symmetric] klen by blast+
  have rne: "map snd trials \<noteq> []" and rnn: "\<forall>r\<in>set (map snd trials). loss r \<noteq> NaN"
    using ne nn by auto
  obtain i where i: "i < length trials" "best_run (map snd trials) = Inr (map snd trials ! i)"
    "\<forall>j<length trials. float_le (loss (map snd trials ! i)) (loss (map snd trials ! j))"
    "\<forall>j<i. float_lt (loss (map snd trials ! i)) (loss (map snd trials ! j))"
    using best_run_first_least [OF rne rnn] by auto
  have key: "\<And>j. j < length trials \<Longrightarrow> loss (map snd trials ! j) = ks ! j"
    unfolding ks_def by simp
  have b1: "\<forall>j<length trials. \<not> float_lt (ks ! j) (ks ! i)"
    using i(1,3) key unfolding float_le_def by auto
  have b2: "\<forall>j<i. float_lt (ks ! i) (ks ! j)"
    using i(1,4) key by auto
  have eq: "i = i1"
    by (rule first_least_unique [of i "length trials" i1 float_lt "\<lambda>j. ks ! j", OF i(1) a(1) b1 b2 a(2) a(3)])
  have b: "b = snd (trials ! i)" using br i(1,2) by simp
  have "\<forall>j<length trials. float_le (loss b) (loss (snd (trials ! j)))"
    using i(3) i(1) unfolding b by simp
  moreover have "\<forall>j<i. float_lt (loss b) (loss (snd (trials ! j)))"
    using i(4) i(1) unfolding b by simp
  ultimately show ?thesis using i(1) t eq b by blast
qed

lemma model_train_returns:
  assumes "build K train_X = Inr m0" "getitem params ''lr'' = Inr lr"
    "getitem params ''momentum'' = Inr momentum" "compile K m0 lr momentum = Inr m1"
    "fit K m1 train_X train_y validation_X validation_y epochs 64 = Inr m2"
    "evaluate K m2 validation_X validation_y 64 = Inr eval_result"
    "index eval_result 1 = Inr eval_rmse"
  shows "fst (model_train K sg params epochs train_X train_y validation_X validation_y test_X test_y st) =
           Inr \<lparr>loss = eval_rmse, status = STATUS_OK, model = m2\<rparr>"
  using assms
  by (simp add: model_train_def bindE_def bindM_def with_run_def start_run_def returnM_def
      log_params_def log_metric_def log_model_def on_active_def get_or_start_run_def
      split: prod.splits)

lemma sweep_result:
  fixes st :: "('m, 's) mlflow"
  assumes act: "active st = []"
  shows "fst (sweep K G algo n rng st) =
     (case fst (fmin (objective K G) space algo n rng (snd (start_run False st))) of
        Inl e \<Rightarrow> Inl e
      | Inr bt \<Rightarrow>
          (case best_run (map snd (snd bt)) of
             Inl e \<Rightarrow> Inl e
           | Inr b \<Rightarrow> Inr (fst bt, b, snd bt)))"
proof -
  obtain st1 where start: "start_run False st = (Inr (length (runs st)), st1)"
    using act by (simp add: start_run_def)
  obtain rf stf where f: "fmin (objective K G) space algo n rng st1 = (rf, stf)"
    by (cases "fmin (objective K G) space algo n rng st1") auto
  show ?thesis
  proof (cases rf)
    case (Inl e)
    then show ?thesis
      unfolding sweep_def with_run_def start using f by (simp add: bindM_Inl)
  next
    case (Inr bt)
    obtain best trials where bt: "bt = (best, trials)" by (cases bt) auto
    have f': "fmin (objective K G) space algo n rng st1 = (Inr (best, trials), stf)"
      using f Inr bt by simp
    show ?thesis
      unfolding sweep_def with_run_def start
        bindM_Inr [where m = "fmin (objective K G) space algo n rng" and st = st1, OF f']
      using f' 
      by (simp add: bindE_def bindM_def returnM_def log_params_def log_metric_def log_model_def
          on_active_def get_or_start_run_def split: prod.splits sum.splits)
  qed
qed

lemma sweep_returns:
  fixes st :: "('m, 's) mlflow"
  assumes act: "active st = []" and B: "0 < B"
    and never: "\<forall>trials rng (s :: ('m, 's) mlflow). \<not> isl (fst (objective K G (fst (algo space trials rng)) s))"
    and fin: "\<forall>cfg (s :: ('m, 's) mlflow) r s'. objective K G cfg s = (Inr r, s') \<longrightarrow> loss r \<noteq> NaN"
  shows "\<exists>best b trials st'. sweep K G algo B rng st = (Inr (best, b, trials), st') \<and>
           (\<forall>t\<in>set trials. loss (snd t) \<noteq> NaN)"
proof -
  obtain st1 where start: "start_run False st = (Inr (length (runs st)), st1)"
    and a1: "active st1 = length (runs st) # []"
    using act by (simp add: start_run_def)
  obtain rl stl where l: "fmin_loop (objective K G) space algo B [] rng st1 = (rl, stl)"
    by (cases "fmin_loop (objective K G) space algo B [] rng st1") auto
  have "\<not> isl rl" 
    using fmin_loop_returns [where fn = "objective K G" and algo = algo and sp = space, OF never, of B "[]" rng st1] l
    by simp
  then obtain trials where rl: "rl = Inr trials" by (cases rl) auto
  obtain new where new: "trials = [] @ new" "length new = B" "\<forall>t\<in>set new. evaluated K G t"
    using fmin_loop_effect [OF l a1] rl by blast
  have ne: "trials \<noteq> []" using new(1,2) B by auto
  have ev: "\<forall>t\<in>set trials. evaluated K G t" using new(1,3) by simp
  have okk: "\<forall>t\<in>set trials. status (snd t) = STATUS_OK" using ev evaluated_result by blast
  have nn: "\<forall>t\<in>set trials. loss (snd t) \<noteq> NaN"
  proof
    fix t assume "t \<in> set trials"
    then obtain s s' where o: "objective K G (fst t) s = (Inr (snd t), s')"
      using ev unfolding evaluated_def by blast
    show "loss (snd t) \<noteq> NaN" using fin o by blast
  qed
  have cand: "filter (\<lambda>t. status (snd t) = STATUS_OK \<and> loss (snd t) \<noteq> NaN) trials = trials"
    using okk nn by (simp add: filter_id_conv)
  obtain t where bt: "best_trial trials = Inr t"
    unfolding best_trial_def Let_def cand using ne by simp
  have f: "fmin (objective K G) space algo B rng st1 = (Inr (fst t, trials), stl)"
    unfolding fmin_def
      bindM_Inr [where m = "fmin_loop (objective K G) space algo B [] rng" and st = st1, OF l [unfolded rl]]
    using ne bt by (simp add: bindE_def returnM_def)
  have rne: "map snd trials \<noteq> []" and rnn: "\<forall>r\<in>set (map snd trials). loss r \<noteq> NaN"
    using ne nn by auto
  obtain b where b: "best_run (map snd trials) = Inr b"
    using best_run_hd [OF rne rnn] by blast
  have "fst (sweep K G algo B rng st) = Inr (fst t, b, trials)"
    unfolding sweep_result [OF act] using start f b by simp
  then have "sweep K G algo B rng st = (Inr (fst t, b, trials), snd (sweep K G algo B rng st))"
    by (metis prod.collapse)
  then show ?thesis using nn by blast
qed

section \<open>The search, trial by trial\<close>

text \<open>
  What the trainer returns or raises on a configuration does not depend on the tracking
  state.
\<close>

lemma objective_result_indep:
  fixes s s' :: "('m, 's) mlflow"
  shows "fst (objective K G cfg s) = fst (objective K G cfg s')"
  by (simp add: objective_def model_train_def bindE_def bindM_def with_run_def start_run_def returnM_def
      log_params_def log_metric_def log_model_def on_active_def get_or_start_run_def
      split: prod.splits sum.splits)

lemma raised_fst:
  fixes s :: "('m, 's) mlflow"
  assumes "raised K G cfg e"
  shows "fst (objective K G cfg s) = Inl e"
proof -
  obtain s0 s1 :: "('m, 's) mlflow" where "objective K G cfg s0 = (Inl e, s1)"
    using assms unfolding raised_def by blast
  then have "fst (objective K G cfg s0) = Inl e" by simp
  then show ?thesis using objective_result_indep [of K G cfg s s0] by simp
qed

lemma evaluated_fst:
  fixes s :: "('m, 's) mlflow"
  assumes "evaluated K G t"
  shows "fst (objective K G (fst t) s) = Inr (snd t)"
proof -
  obtain s0 s1 :: "('m, 's) mlflow" where "objective K G (fst t) s0 = (Inr (snd t), s1)"
    using assms unfolding evaluated_def by blast
  then have "fst (objective K G (fst t) s0) = Inr (snd t)" by simp
  then show ?thesis using objective_result_indep [of K G "fst t" s s0] by simp
qed

text \<open>
  A search whose first trials returned and whose next trial raises: the loop raises that
  exception at once, and so does the sweep.
\<close>

lemma fmin_loop_raises:
  fixes st :: "('m, 's) mlflow"
  assumes h: "history K G algo sp rng0 past"
    and r: "raised K G (proposal algo sp past rng0 (length past)) e"
  shows "j \<le> length past \<Longrightarrow> length past < j + n \<Longrightarrow> active st = p # rest \<Longrightarrow>
    \<exists>cs fl. fmin_loop (objective K G) sp algo n (take j past) (rng_at algo sp past rng0 j) st =
        (Inl e, st\<lparr>runs := runs st @ cs, clock := clock st + 2 * length cs\<rparr>) \<and>
      map run_status cs = replicate (length past - j) FINISHED @ fl \<and> (fl = [] \<or> fl = [FAILED])"
proof (induction n arbitrary: j st)
  case 0
  then show ?case by simp
next
  case (Suc n)
  obtain cfg rng1 where al: "algo sp (take j past) (rng_at algo sp past rng0 j) = (cfg, rng1)"
    by (cases "algo sp (take j past) (rng_at algo sp past rng0 j)") auto
  have cfg: "cfg = proposal algo sp past rng0 j" and rng1: "rng1 = rng_at algo sp past rng0 (Suc j)"
    using al by (simp_all add: proposal_def)
  obtain r1 st1 where ob: "objective K G cfg st = (r1, st1)" by (cases "objective K G cfg st") auto
  have te: "trial_effect st r1 st1" by (rule objective_effect [OF ob])
  show ?case
  proof (cases "j = length past")
    case True
    have "fst (objective K G cfg st) = Inl e" using raised_fst [OF r] cfg True by simp
    then have r1: "r1 = Inl e" using ob by simp
    have loop: "fmin_loop (objective K G) sp algo (Suc n) (take j past) (rng_at algo sp past rng0 j) st = (Inl e, st1)"
      using al ob r1 by simp
    from te consider "st1 = st" | c where "st1 = st\<lparr>runs := runs st @ [c], clock := clock st + 2\<rparr>"
      "run_status c = FAILED"
      unfolding trial_effect_def r1 by auto
    then show ?thesis
    proof cases
      case 1
      have "st1 = st\<lparr>runs := runs st @ [], clock := clock st + 2 * length ([] :: ('m, 's) run list)\<rparr>"
        using 1 by simp
      then show ?thesis using loop True
        by (intro exI [of _ "[]"]) simp
    next
      case 2
      have "st1 = st\<lparr>runs := runs st @ [c], clock := clock st + 2 * length [c]\<rparr>"
        using 2(1) by simp
      then show ?thesis using loop True 2(2)
        by (intro exI [of _ "[c]"] exI [of _ "[FAILED]"]) simp
    qed
  next
    case False
    then have jl: "j < length past" using Suc.prems(1) by simp
    define t where "t = past ! j"
    have ft: "fst t = cfg" and ev: "evaluated K G t"
      using h jl unfolding history_def t_def cfg by simp_all
    have "fst (objective K G cfg st) = Inr (snd t)" using evaluated_fst [OF ev] ft by simp
    then have r1: "r1 = Inr (snd t)" using ob by simp
    have tk: "take j past @ [(cfg, snd t)] = take (Suc j) past"
    proof -
      have "(cfg, snd t) = past ! j" using ft unfolding t_def by (cases "past ! j") auto
      then show ?thesis using jl by (simp add: take_Suc_conv_app_nth)
    qed
    have loop: "fmin_loop (objective K G) sp algo (Suc n) (take j past) (rng_at algo sp past rng0 j) st =
        fmin_loop (objective K G) sp algo n (take (Suc j) past) (rng_at algo sp past rng0 (Suc j)) st1"
    proof -
      have "fmin_loop (objective K G) sp algo (Suc n) (take j past) (rng_at algo sp past rng0 j) st =
          fmin_loop (objective K G) sp algo n (take j past @ [(cfg, snd t)]) rng1 st1"
        using al ob r1 by simp
      then show ?thesis unfolding tk rng1 .
    qed
    from te obtain c where c: "st1 = st\<lparr>runs := runs st @ [c], clock := clock st + 2\<rparr>"
      "run_status c = FINISHED"
      unfolding trial_effect_def r1 by auto
    have a1: "active st1 = p # rest" using c(1) Suc.prems(3) by simp
    have "Suc j \<le> length past" "length past < Suc j + n" using jl Suc.prems(2) by simp_all
    from Suc.IH [OF this a1] obtain cs fl where
      ih: "fmin_loop (objective K G) sp algo n (take (Suc j) past) (rng_at algo sp past rng0 (Suc j)) st1 =
        (Inl e, st1\<lparr>runs := runs st1 @ cs, clock := clock st1 + 2 * length cs\<rparr>)"
      "map run_status cs = replicate (length past - Suc j) FINISHED @ fl" "fl = [] \<or> fl = [FAILED]"
      by blast
    have s: "st1\<lparr>runs := runs st1 @ cs, clock := clock st1 + 2 * length cs\<rparr> =
        st\<lparr>runs := runs st @ (c # cs), clock := clock st + 2 * length (c # cs)\<rparr>"
      unfolding c(1) by simp
    have m: "map run_status (c # cs) = replicate (length past - j) FINISHED @ fl"
    proof -
      have "length past - j = Suc (length past - Suc j)" using jl by simp
      then show ?thesis using ih(2) c(2) by simp
    qed
    have "fmin_loop (objective K G) sp algo (Suc n) (take j past) (rng_at algo sp past rng0 j) st =
        (Inl e, st\<lparr>runs := runs st @ (c # cs), clock := clock st + 2 * length (c # cs)\<rparr>)"
      using loop ih(1) s by simp
    then show ?thesis using m ih(3) by blast
  qed
qed

lemma sweep_loop_raises:
  fixes st :: "('m, 's) mlflow"
  assumes act: "active st = []"
    and l: "fmin_loop (objective K G) space algo n [] rng (snd (start_run False st)) = (Inl e, s2)"
  shows "sweep K G algo n rng st = (Inl e, end_run FAILED s2)"
proof -
  obtain st1 where start: "start_run False st = (Inr (length (runs st)), st1)"
    using act by (simp add: start_run_def)
  have l': "fmin_loop (objective K G) space algo n [] rng st1 = (Inl e, s2)" using l start by simp
  have f: "fmin (objective K G) space algo n rng st1 = (Inl e, s2)"
    unfolding fmin_def using l' by (simp add: bindM_Inl)
  show ?thesis
    unfolding sweep_def with_run_def start using f by (simp add: bindM_Inl)
qed

lemma sweep_aborts:
  fixes st :: "('m, 's) mlflow"
  assumes act: "active st = []" and h: "history K G algo space rng past" and len: "length past < B"
    and r: "raised K G (proposal algo space past rng (length past)) e"
  shows "\<exists>top cs fl. sweep K G algo B rng st =
            (Inl e, st\<lparr>runs := runs st @ top # cs, clock := clock st + 2 + 2 * length cs\<rparr>) \<and>
          run_status top = FAILED \<and> run_params top = [] \<and> run_metrics top = [] \<and>
          run_artifacts top = [] \<and>
          map run_status cs = replicate (length past) FINISHED @ fl \<and> (fl = [] \<or> fl = [FAILED])"
proof -
  define top0 :: "('m, 's) run" where
    "top0 = \<lparr>run_parent = None, run_params = [], run_metrics = [], run_artifacts = [],
             run_status = RUNNING, start_time = clock st, end_time = None\<rparr>"
  define st1 where
    "st1 = st\<lparr>runs := runs st @ [top0], active := [length (runs st)], clock := Suc (clock st)\<rparr>"
  have start: "snd (start_run False st) = st1"
    using act by (simp add: start_run_def st1_def top0_def)
  have a1: "active st1 = length (runs st) # []" by (simp add: st1_def)
  have "0 \<le> length past" "length past < 0 + B" using len by simp_all
  from fmin_loop_raises [OF h r this a1] obtain cs fl where
    l: "fmin_loop (objective K G) space algo B [] rng st1 =
         (Inl e, st1\<lparr>runs := runs st1 @ cs, clock := clock st1 + 2 * length cs\<rparr>)"
    and m: "map run_status cs = replicate (length past) FINISHED @ fl" "fl = [] \<or> fl = [FAILED]"
    by auto
  define top where "top = top0\<lparr>run_status := FAILED, end_time := Some (clock st + 1 + 2 * length cs)\<rparr>"
  have "sweep K G algo B rng st =
      (Inl e, end_run FAILED (st1\<lparr>runs := runs st1 @ cs, clock := clock st1 + 2 * length cs\<rparr>))"
    using sweep_loop_raises [OF act, of K G algo B rng e] l start by simp
  moreover have "end_run FAILED (st1\<lparr>runs := runs st1 @ cs, clock := clock st1 + 2 * length cs\<rparr>) =
      st\<lparr>runs := runs st @ top # cs, clock := clock st + 2 + 2 * length cs\<rparr>"
    unfolding st1_def end_run_def top_def using act by simp
  ultimately have "sweep K G algo B rng st =
      (Inl e, st\<lparr>runs := runs st @ top # cs, clock := clock st + 2 + 2 * length cs\<rparr>)"
    by simp
  moreover have "run_status top = FAILED" "run_params top = []" "run_metrics top = []" "run_artifacts top = []"
    by (simp_all add: top_def top0_def)
  ultimately show ?thesis using m by blast
qed

text \<open>The trials a returned search recorded are its proposals, in order.\<close>

lemma rng_at_append:
  "k \<le> length pre \<Longrightarrow> rng_at algo sp (pre @ xs) rng k = rng_at algo sp pre rng k"
  by (induction k) simp_all

lemma proposal_append:
  "k \<le> length pre \<Longrightarrow> proposal algo sp (pre @ xs) rng k = proposal algo sp pre rng k"
  by (simp add: proposal_def rng_at_append)

lemma history_snoc:
  assumes h: "history K G algo sp rng pre" and c: "cfg = proposal algo sp pre rng (length pre)"
    and ev: "evaluated K G (cfg, v)"
  shows "history K G algo sp rng (pre @ [(cfg, v)])"
  unfolding history_def
proof (intro allI impI)
  fix k assume k: "k < length (pre @ [(cfg, v)])"
  show "fst ((pre @ [(cfg, v)]) ! k) = proposal algo sp (pre @ [(cfg, v)]) rng k \<and>
        evaluated K G ((pre @ [(cfg, v)]) ! k)"
  proof (cases "k < length pre")
    case True
    then show ?thesis using h unfolding history_def by (simp add: nth_append proposal_append)
  next
    case False
    then have "k = length pre" using k by simp
    then show ?thesis using c ev by (simp add: proposal_append)
  qed
qed

lemma fmin_loop_history:
  fixes st :: "('m, 's) mlflow"
  shows "fmin_loop (objective K G) sp algo n pre (rng_at algo sp pre rng0 (length pre)) st = (Inr trials', st') \<Longrightarrow>
    history K G algo sp rng0 pre \<Longrightarrow> history K G algo sp rng0 trials'"
proof (induction n arbitrary: pre st)
  case 0
  then show ?case by simp
next
  case (Suc n)
  obtain cfg rng1 where al: "algo sp pre (rng_at algo sp pre rng0 (length pre)) = (cfg, rng1)"
    by (cases "algo sp pre (rng_at algo sp pre rng0 (length pre))") auto
  obtain r1 st1 where ob: "objective K G cfg st = (r1, st1)" by (cases "objective K G cfg st") auto
  obtain v where r1: "r1 = Inr v" using Suc.prems(1) al ob by (cases r1) auto
  have cfg: "cfg = proposal algo sp pre rng0 (length pre)" using al by (simp add: proposal_def)
  have ev: "evaluated K G (cfg, v)" unfolding evaluated_def using ob r1 by auto
  have h: "history K G algo sp rng0 (pre @ [(cfg, v)])"
    by (rule history_snoc [OF Suc.prems(2) cfg ev])
  have rng1: "rng1 = rng_at algo sp (pre @ [(cfg, v)]) rng0 (length (pre @ [(cfg, v)]))"
    using al by (simp add: rng_at_append)
  have "fmin_loop (objective K G) sp algo n (pre @ [(cfg, v)]) rng1 st1 = (Inr trials', st')"
    using Suc.prems(1) al ob r1 by simp
  then show ?case using Suc.IH [of "pre @ [(cfg, v)]" st1] h unfolding rng1 by blast
qed

lemma fmin_InrD:
  "fmin fn sp algo n rng st = (Inr (best, trials), st') \<Longrightarrow>
   fmin_loop fn sp algo n [] rng st = (Inr trials, st')"
  by (auto simp: fmin_def bindM_def bindE_def returnM_def split: prod.splits sum.splits if_splits)

lemma sweep_history:
  fixes st :: "('m, 's) mlflow"
  assumes sw: "sweep K G algo B rng st = (Inr (best, b, trials), st')"
  shows "history K G algo space rng trials"
proof -
  from sw obtain st1 st2 where body: "bindM (fmin (objective K G) space algo B rng) (\<lambda>(best, trials).
               bindE (best_run (map snd trials)) (\<lambda>b.
               bindM (log_params best) (\<lambda>_.
               bindM (log_metric ''eval_rmse'' (loss b)) (\<lambda>_.
               bindM (log_model (model b) ''model'' (g_signature G) None) (\<lambda>_.
               returnM (best, b, trials)))))) st1 = (Inr (best, b, trials), st2)"
    unfolding sweep_def by (rule with_run_InrE)
  from body obtain bt stf where f: "fmin (objective K G) space algo B rng st1 = (Inr bt, stf)"
    and rest: "(case bt of (best, trials) \<Rightarrow>
               bindE (best_run (map snd trials)) (\<lambda>b.
               bindM (log_params best) (\<lambda>_.
               bindM (log_metric ''eval_rmse'' (loss b)) (\<lambda>_.
               bindM (log_model (model b) ''model'' (g_signature G) None) (\<lambda>_.
               returnM (best, b, trials)))))) stf = (Inr (best, b, trials), st2)"
    by (rule bindM_InrE)
  obtain best' trials' where bt: "bt = (best', trials')" by (cases bt) auto
  have "trials' = trials"
    using rest unfolding bt
    by (auto simp: bindE_def bindM_def returnM_def split: prod.splits sum.splits)
  then have l: "fmin_loop (objective K G) space algo B [] rng st1 = (Inr trials, stf)"
    using fmin_InrD [of "objective K G" space algo B rng st1 best' trials' stf] f bt by simp
  have h0: "history K G algo space rng []" by (simp add: history_def)
  show ?thesis
    using fmin_loop_history [of K G space algo B "[]" rng st1 trials stf] l h0 by simp
qed

section \<open>The stub environment, run\<close>

lemmas run_defs = with_run_def start_run_def end_run_def bindM_def bindE_def returnM_def
  objective_def model_train_def getitem_def index_def log_params_def log_metric_def log_model_def
  on_active_def get_or_start_run_def

lemmas sweep_defs = sweep_def fmin_def best_trial_def np_argmin_def best_run_def py_sorted_def
  list_sort_def

lemma sweep_stub:
  "sweep stub_keras stub_globals stub_suggest 2 0 fresh =
     (Inr (fst trial_b, snd trial_b, [trial_a, trial_b]), swept)"
  by (simp add: run_defs sweep_defs stub_keras_def stub_globals_def stub_suggest_def fresh_def
      trial_a_def trial_b_def swept_def Let_def eval_nat_numeral bisect.simps)

lemma sweep_failing:
  "sweep failing_keras stub_globals stub_suggest 12 0 fresh =
     (Inl (Raised ''ResourceExhaustedError''), aborted)"
  by (simp add: run_defs sweep_defs failing_keras_def stub_globals_def stub_suggest_def fresh_def
      aborted_def eval_nat_numeral)

lemma sweep_interrupted:
  "sweep interrupted_keras stub_globals stub_suggest 12 0 fresh = (Inl KeyboardInterrupt, aborted)"
  by (simp add: run_defs sweep_defs interrupted_keras_def stub_globals_def stub_suggest_def fresh_def
      aborted_def eval_nat_numeral)

lemma model_train_diverging:
  "model_train diverging_keras () [(''lr'', 1 / 10), (''momentum'', 1 / 2)] 3 () () () () () () fresh =
     (Inr \<lparr>loss = NaN, status = STATUS_OK, model = 1 / 10\<rparr>,
      \<lparr>runs = [\<lparr>run_parent = None, run_params = [(''lr'', 1 / 10), (''momentum'', 1 / 2)],
                 run_metrics = [(''eval_rmse'', NaN)], run_artifacts = [(''model'', 1 / 10, ())],
                 run_status = FINISHED, start_time = 0, end_time = Some 1\<rparr>],
        active = [], registry = [], clock = 2\<rparr>)"
  by (simp add: run_defs diverging_keras_def fresh_def)

lemma model_train_interrupted:
  "model_train interrupted_keras () [(''lr'', 1 / 10), (''momentum'', 1 / 2)] 3 () () () () () () fresh =
     (Inl KeyboardInterrupt,
      \<lparr>runs = [\<lparr>run_parent = None, run_params = [], run_metrics = [], run_artifacts = [],
                 run_status = FAILED, start_time = 0, end_time = Some 1\<rparr>],
        active = [], registry = [], clock = 2\<rparr>)"
  by (simp add: run_defs interrupted_keras_def fresh_def)

lemma failing_keras_raises:
  "isl (fst (objective failing_keras stub_globals cfg (s :: (real, unit) mlflow)))"
  by (simp add: run_defs failing_keras_def stub_globals_def split: option.splits)

lemma stub_never_raises:
  "\<not> isl (fst (objective stub_keras stub_globals (fst (stub_suggest sp trials rng)) (s :: (real, unit) mlflow)))"
  by (simp add: run_defs stub_keras_def stub_globals_def stub_suggest_def split: prod.splits)

lemma stub_loss_finite:
  assumes "objective stub_keras stub_globals cfg (s :: (real, unit) mlflow) = (Inr r, s')"
  shows "loss r \<noteq> NaN"
  using model_train_result [OF assms [unfolded objective_def]]
  by (auto simp add: stub_keras_def index_def)

lemma sweep_flaky:
  "sweep flaky_keras stub_globals stub_suggest 12 0 fresh =
     (Inl (Raised ''ResourceExhaustedError''), aborted_second)"
  by (simp add: run_defs sweep_defs flaky_keras_def stub_globals_def stub_suggest_def fresh_def
      aborted_second_def eval_nat_numeral)

lemma sweep_unstable:
  "sweep unstable_keras stub_globals stub_suggest 2 0 fresh =
     (Inr (fst trial_b, snd trial_nan, [trial_nan, trial_b]), mislogged)"
  by (simp add: run_defs sweep_defs unstable_keras_def stub_globals_def stub_suggest_def fresh_def
      trial_nan_def trial_b_def mislogged_def Let_def eval_nat_numeral bisect.simps)

lemma flaky_first_returns:
  "evaluated flaky_keras stub_globals trial_a"
proof -
  have "fst (objective flaky_keras stub_globals (fst trial_a) fresh) = Inr (snd trial_a)"
    by (simp add: run_defs flaky_keras_def stub_globals_def fresh_def trial_a_def split: prod.splits)
  then have "objective flaky_keras stub_globals (fst trial_a) fresh =
      (Inr (snd trial_a), snd (objective flaky_keras stub_globals (fst trial_a) fresh))"
    by (metis prod.collapse)
  then show ?thesis unfolding evaluated_def by blast
qed

lemma flaky_history:
  "history flaky_keras stub_globals stub_suggest space 0 [trial_a]"
  using flaky_first_returns
  by (simp add: history_def proposal_def stub_suggest_def trial_a_def)

lemma flaky_second_raises:
  "raised flaky_keras stub_globals (proposal stub_suggest space [trial_a] 0 (length [trial_a]))
     (Raised ''ResourceExhaustedError'')"
proof -
  have p: "proposal stub_suggest space [trial_a] 0 (length [trial_a]) = [(''lr'', 1 / 2), (''momentum'', 1 / 2)]"
    by (simp add: proposal_def stub_suggest_def)
  have "fst (objective flaky_keras stub_globals [(''lr'', 1 / 2), (''momentum'', 1 / 2)] fresh) =
      Inl (Raised ''ResourceExhaustedError'')"
    by (simp add: run_defs flaky_keras_def stub_globals_def fresh_def split: prod.splits)
  then have "objective flaky_keras stub_globals [(''lr'', 1 / 2), (''momentum'', 1 / 2)] fresh =
      (Inl (Raised ''ResourceExhaustedError''),
       snd (objective flaky_keras stub_globals [(''lr'', 1 / 2), (''momentum'', 1 / 2)] fresh))"
    by (metis prod.collapse)
  then show ?thesis unfolding raised_def p by blast
qed

section \<open>C1: the best run\<close>

text \<open>
  Claim C1 says that the best run is the result with the least loss. Where no loss is NaN
  the cell selects it, the earliest among equals (lemma \<open>best_run_first_least\<close>). The
  theorem evaluates the cell where the first loss is NaN: no \<^verbatim>\<open><\<close> comparison with NaN
  holds, so \<^verbatim>\<open>sorted\<close> leaves the NaN result at the head and \<open>best_run\<close> is that result,
  though its loss is not less than or equal to the other loss, while \<open>best_trial\<close>, from
  which \<open>fmin\<close> takes the configuration it returns, names the other trial. In the sweep
  at the network that diverges in its first trial, the top-level run is given the
  parameters of the second trial with the NaN loss and the model of the first.
\<close>

theorem best_run_nan_selected:
  "best_run [\<lparr>loss = NaN, status = STATUS_OK, model = 0::nat\<rparr>, \<lparr>loss = Finite 1, status = STATUS_OK, model = 1::nat\<rparr>] = Inr \<lparr>loss = NaN, status = STATUS_OK, model = 0::nat\<rparr> \<and>
   \<not> float_le (loss \<lparr>loss = NaN, status = STATUS_OK, model = 0::nat\<rparr>) (loss \<lparr>loss = Finite 1, status = STATUS_OK, model = 1::nat\<rparr>) \<and>
   best_trial [([(''lr'', 1 / 10 :: real)], \<lparr>loss = NaN, status = STATUS_OK, model = 0::nat\<rparr>), ([(''lr'', 1 / 100 :: real)], \<lparr>loss = Finite 1, status = STATUS_OK, model = 1::nat\<rparr>)] =
     Inr ([(''lr'', 1 / 100 :: real)], \<lparr>loss = Finite 1, status = STATUS_OK, model = 1::nat\<rparr>) \<and>
   sweep unstable_keras stub_globals stub_suggest 2 0 fresh =
     (Inr (fst trial_b, snd trial_nan, [trial_nan, trial_b]), mislogged) \<and>
   loss (snd trial_nan) = NaN \<and> loss (snd trial_b) = Finite (1 / 2) \<and>
   run_params (runs mislogged ! 0) = fst trial_b \<and>
   run_metrics (runs mislogged ! 0) = [(''eval_rmse'', loss (snd trial_nan))] \<and>
   run_artifacts (runs mislogged ! 0) = [(''model'', model (snd trial_nan), ())]"
  by (simp add: sweep_unstable best_run_def py_sorted_def list_sort_def index_def float_le_def
      best_trial_def np_argmin_def trial_nan_def trial_b_def mislogged_def)

section \<open>C2: a trial that fails\<close>

text \<open>
  Claim C2, as the code has it. Nothing catches an exception of the Trainer and nothing
  replaces a score. In a sweep begun with no run active, at whichever trial the Trainer
  first raises, after any number of trials that returned, the sweep raises that
  exception and runs no further trial: the child runs of the earlier trials are
  \<open>FINISHED\<close>, the child run of the raising trial, if it had begun, is \<open>FAILED\<close>, and the
  top-level run is sealed \<open>FAILED\<close> with nothing logged on it. So a Trainer that always
  raises makes a sweep of a budget of at least one raise at its first trial, with at most
  one child run. When the sweep returns, it has recorded as many trials as the budget,
  the configurations proposed in order, each with status ok and with the very score the
  evaluation returned, finite or not.
\<close>

theorem trainer_failure_propagates:
  fixes st :: "('m, 's) mlflow"
  assumes act: "active st = []" and B: "0 < B"
  shows "(\<forall>past e. length past < B \<and> history K G algo space rng past \<and>
            raised K G (proposal algo space past rng (length past)) e \<longrightarrow>
           (\<exists>top cs fl. sweep K G algo B rng st =
                (Inl e, st\<lparr>runs := runs st @ top # cs, clock := clock st + 2 + 2 * length cs\<rparr>) \<and>
              run_status top = FAILED \<and> run_params top = [] \<and> run_metrics top = [] \<and>
              run_artifacts top = [] \<and>
              map run_status cs = replicate (length past) FINISHED @ fl \<and> (fl = [] \<or> fl = [FAILED]))) \<and>
         ((\<forall>cfg (s :: ('m, 's) mlflow). isl (fst (objective K G cfg s))) \<longrightarrow>
           (\<exists>e top cs. sweep K G algo B rng st =
                (Inl e, st\<lparr>runs := runs st @ top # cs, clock := clock st + 2 + 2 * length cs\<rparr>) \<and>
              run_status top = FAILED \<and> length cs \<le> 1 \<and>
              list_all (\<lambda>c. run_status c = FAILED) cs)) \<and>
         (\<forall>best b trials st'. sweep K G algo B rng st = (Inr (best, b, trials), st') \<longrightarrow>
            length trials = B \<and> history K G algo space rng trials \<and>
            list_all (\<lambda>t. status (snd t) = STATUS_OK \<and>
                (\<exists>eval_result.
                   evaluate K (model (snd t)) (g_validation_X G) (g_validation_y G) 64 = Inr eval_result \<and>
                   index eval_result 1 = Inr (loss (snd t)))) trials)"
    (is "?aborts \<and> ?always \<and> ?returned")
proof (intro conjI)
  show ?aborts
  proof (intro allI impI)
    fix past e
    assume a: "length past < B \<and> history K G algo space rng past \<and>
            raised K G (proposal algo space past rng (length past)) e"
    from a have len: "length past < B" and h: "history K G algo space rng past"
      and r: "raised K G (proposal algo space past rng (length past)) e"
      by blast+
    from sweep_aborts [OF act h len r]
    show "(\<exists>top cs fl. sweep K G algo B rng st =
                (Inl e, st\<lparr>runs := runs st @ top # cs, clock := clock st + 2 + 2 * length cs\<rparr>) \<and>
              run_status top = FAILED \<and> run_params top = [] \<and> run_metrics top = [] \<and>
              run_artifacts top = [] \<and>
              map run_status cs = replicate (length past) FINISHED @ fl \<and> (fl = [] \<or> fl = [FAILED]))" .
  qed
  show ?always
  proof (rule impI)
    assume raises: "\<forall>cfg (s :: ('m, 's) mlflow). isl (fst (objective K G cfg s))"
    obtain n where n: "B = Suc n" using B by (cases B) auto
    define top0 :: "('m, 's) run" where
      "top0 = \<lparr>run_parent = None, run_params = [], run_metrics = [], run_artifacts = [],
               run_status = RUNNING, start_time = clock st, end_time = None\<rparr>"
    define st1 where
      "st1 = st\<lparr>runs := runs st @ [top0], active := [length (runs st)], clock := Suc (clock st)\<rparr>"
    have start: "snd (start_run False st) = st1"
      using act by (simp add: start_run_def st1_def top0_def)
    obtain cfg rng1 where al: "algo space [] rng = (cfg, rng1)" by (cases "algo space [] rng") auto
    obtain r1 s2 where ob: "objective K G cfg st1 = (r1, s2)" by (cases "objective K G cfg st1") auto
    have "isl r1" using raises [rule_format, of cfg st1] ob by simp
    then obtain e where r1: "r1 = Inl e" by (cases r1) auto
    have sw: "sweep K G algo B rng st = (Inl e, end_run FAILED s2)"
      unfolding n
      using sweep_first_trial_raises [of st algo rng cfg rng1 K G e s2 n, OF act al] ob r1 start by simp
    define top where "top = top0\<lparr>run_status := FAILED\<rparr>"
    have te: "trial_effect st1 r1 s2" by (rule objective_effect [OF ob])
    then consider "s2 = st1" | r where "s2 = st1\<lparr>runs := runs st1 @ [r], clock := clock st1 + 2\<rparr>"
      "run_status r = FAILED"
      unfolding trial_effect_def r1 by auto
    then show "\<exists>e top cs. sweep K G algo B rng st =
                  (Inl e, st\<lparr>runs := runs st @ top # cs, clock := clock st + 2 + 2 * length cs\<rparr>) \<and>
                run_status top = FAILED \<and> length cs \<le> 1 \<and>
                list_all (\<lambda>c. run_status c = FAILED) cs"
    proof cases
      case 1
      have "end_run FAILED s2 = st\<lparr>runs := runs st @ top0\<lparr>run_status := FAILED, end_time := Some (Suc (clock st))\<rparr> # [],
          clock := clock st + 2 + 2 * length ([] :: ('m, 's) run list)\<rparr>"
        unfolding 1 st1_def end_run_def using act by simp
      then have "sweep K G algo B rng st =
          (Inl e, st\<lparr>runs := runs st @ top0\<lparr>run_status := FAILED, end_time := Some (Suc (clock st))\<rparr> # [],
          clock := clock st + 2 + 2 * length ([] :: ('m, 's) run list)\<rparr>)"
        using sw by simp
      then show ?thesis
        by (intro exI [of _ e] exI [of _ "top0\<lparr>run_status := FAILED, end_time := Some (Suc (clock st))\<rparr>"]
              exI [of _ "[]"]) simp
    next
      case 2
      have "end_run FAILED s2 = st\<lparr>runs := runs st @ top0\<lparr>run_status := FAILED, end_time := Some (clock st + 3)\<rparr> # [r],
          clock := clock st + 2 + 2 * length [r]\<rparr>"
        unfolding 2 st1_def end_run_def using act by simp
      then have "sweep K G algo B rng st =
          (Inl e, st\<lparr>runs := runs st @ top0\<lparr>run_status := FAILED, end_time := Some (clock st + 3)\<rparr> # [r],
          clock := clock st + 2 + 2 * length [r]\<rparr>)"
        using sw by simp
      then show ?thesis
        using 2(2)
        by (intro exI [of _ e] exI [of _ "top0\<lparr>run_status := FAILED, end_time := Some (clock st + 3)\<rparr>"]
              exI [of _ "[r]"]) simp
    qed
  qed
  show ?returned
  proof (intro allI impI conjI)
    fix best b trials st'
    assume sw: "sweep K G algo B rng st = (Inr (best, b, trials), st')"
    have ev: "length trials = B" "\<forall>t\<in>set trials. evaluated K G t"
      using sweep_effect [OF sw act] by auto
    then show "length trials = B" by simp
    show "history K G algo space rng trials" by (rule sweep_history [OF sw])
    show "list_all (\<lambda>t. status (snd t) = STATUS_OK \<and>
                (\<exists>eval_result.
                   evaluate K (model (snd t)) (g_validation_X G) (g_validation_y G) 64 = Inr eval_result \<and>
                   index eval_result 1 = Inr (loss (snd t)))) trials"
      unfolding list_all_iff using ev(2) evaluated_result by blast
  qed
qed

text \<open>
  The theorem at a network that raises in \<^verbatim>\<open>fit\<close> at the second trial, at one that always
  raises there, and at the stub network.
\<close>

theorem trainer_failure_propagates_witness:
  "active fresh = [] \<and> (0::nat) < 12 \<and>
   length [trial_a] < 12 \<and> history flaky_keras stub_globals stub_suggest space 0 [trial_a] \<and>
   raised flaky_keras stub_globals (proposal stub_suggest space [trial_a] 0 (length [trial_a]))
     (Raised ''ResourceExhaustedError'') \<and>
   (\<exists>top cs fl. sweep flaky_keras stub_globals stub_suggest 12 0 fresh =
        (Inl (Raised ''ResourceExhaustedError''),
         fresh\<lparr>runs := runs fresh @ top # cs, clock := clock fresh + 2 + 2 * length cs\<rparr>) \<and>
      run_status top = FAILED \<and> run_params top = [] \<and> run_metrics top = [] \<and>
      run_artifacts top = [] \<and>
      map run_status cs = replicate (length [trial_a]) FINISHED @ fl \<and> (fl = [] \<or> fl = [FAILED])) \<and>
   map run_status (runs (snd (sweep flaky_keras stub_globals stub_suggest 12 0 fresh))) =
     [FAILED, FINISHED, FAILED] \<and>
   (\<forall>cfg (s :: (real, unit) mlflow). isl (fst (objective failing_keras stub_globals cfg s))) \<and>
   (\<exists>e top cs. sweep failing_keras stub_globals stub_suggest 12 0 fresh =
        (Inl e, fresh\<lparr>runs := runs fresh @ top # cs, clock := clock fresh + 2 + 2 * length cs\<rparr>) \<and>
      run_status top = FAILED \<and> length cs \<le> 1 \<and> list_all (\<lambda>c. run_status c = FAILED) cs) \<and>
   (0::nat) < 2 \<and>
   sweep stub_keras stub_globals stub_suggest 2 0 fresh =
     (Inr (fst trial_b, snd trial_b, [trial_a, trial_b]), swept) \<and>
   length [trial_a, trial_b] = 2 \<and>
   history stub_keras stub_globals stub_suggest space 0 [trial_a, trial_b] \<and>
   list_all (\<lambda>t. status (snd t) = STATUS_OK \<and>
                (\<exists>eval_result.
                   evaluate stub_keras (model (snd t)) (g_validation_X stub_globals)
                     (g_validation_y stub_globals) 64 = Inr eval_result \<and>
                   index eval_result 1 = Inr (loss (snd t))))
     [trial_a, trial_b]"
proof -
  have act: "active fresh = []" by (simp add: fresh_def)
  note flaky = trainer_failure_propagates [OF act, of 12 flaky_keras stub_globals stub_suggest 0]
  have len: "length [trial_a] < 12" by simp
  have ab: "(\<exists>top cs fl. sweep flaky_keras stub_globals stub_suggest 12 0 fresh =
        (Inl (Raised ''ResourceExhaustedError''),
         fresh\<lparr>runs := runs fresh @ top # cs, clock := clock fresh + 2 + 2 * length cs\<rparr>) \<and>
      run_status top = FAILED \<and> run_params top = [] \<and> run_metrics top = [] \<and>
      run_artifacts top = [] \<and>
      map run_status cs = replicate (length [trial_a]) FINISHED @ fl \<and> (fl = [] \<or> fl = [FAILED]))"
    using flaky [THEN conjunct1, rule_format, of "[trial_a]" "Raised ''ResourceExhaustedError''"]
      len flaky_history flaky_second_raises
    by simp
  have st: "map run_status (runs (snd (sweep flaky_keras stub_globals stub_suggest 12 0 fresh))) =
     [FAILED, FINISHED, FAILED]"
    by (simp add: sweep_flaky aborted_second_def)
  have r: "\<forall>cfg (s :: (real, unit) mlflow). isl (fst (objective failing_keras stub_globals cfg s))"
    using failing_keras_raises by blast
  have a: "(\<exists>e top cs. sweep failing_keras stub_globals stub_suggest 12 0 fresh =
        (Inl e, fresh\<lparr>runs := runs fresh @ top # cs, clock := clock fresh + 2 + 2 * length cs\<rparr>) \<and>
      run_status top = FAILED \<and> length cs \<le> 1 \<and> list_all (\<lambda>c. run_status c = FAILED) cs)"
    using trainer_failure_propagates [OF act, of 12 failing_keras stub_globals stub_suggest 0] r by simp
  have b: "length [trial_a, trial_b] = 2 \<and>
   history stub_keras stub_globals stub_suggest space 0 [trial_a, trial_b] \<and>
   list_all (\<lambda>t. status (snd t) = STATUS_OK \<and>
                (\<exists>eval_result.
                   evaluate stub_keras (model (snd t)) (g_validation_X stub_globals)
                     (g_validation_y stub_globals) 64 = Inr eval_result \<and>
                   index eval_result 1 = Inr (loss (snd t))))
     [trial_a, trial_b]"
    using trainer_failure_propagates [OF act, of 2 stub_keras stub_globals stub_suggest 0] sweep_stub
    by simp
  have two: "(0::nat) < 12" "(0::nat) < 2" by simp_all
  show ?thesis
    using act two len flaky_history flaky_second_raises ab st r a sweep_stub b by blast
qed

text \<open>
  The claim fails at a network that raises in \<^verbatim>\<open>fit\<close>: with a budget of 12 the sweep
  raises, and the top-level run and the one child run are sealed \<open>FAILED\<close>. It fails too
  at a network that diverges: the trial's loss is NaN, not \<open>+infinity\<close>.
\<close>

theorem trainer_failure_counterexample:
  "fst (sweep failing_keras stub_globals stub_suggest 12 0 fresh) = Inl (Raised ''ResourceExhaustedError'') \<and>
   map run_status (runs (snd (sweep failing_keras stub_globals stub_suggest 12 0 fresh))) = [FAILED, FAILED] \<and>
   fst (model_train diverging_keras () [(''lr'', 1 / 10), (''momentum'', 1 / 2)] 3 () () () () () () fresh) =
     Inr \<lparr>loss = NaN, status = STATUS_OK, model = 1 / 10\<rparr>"
  by (simp add: sweep_failing model_train_diverging aborted_def)

section \<open>C3: the child runs of a sweep\<close>

text \<open>
  Claim C3, as the code has it. A sweep begun with no run active creates a top-level run
  and at most \<open>B\<close> child runs, each with the top-level run as parent; when the call is
  over, by return or by exception, none of them is left \<open>RUNNING\<close>. When the call
  returns there are exactly \<open>B\<close> child runs, all \<open>FINISHED\<close>; and there are exactly \<open>B\<close>
  child runs, all \<open>FINISHED\<close>, whenever the trainer raises on no configuration the
  suggestion algorithm proposes.
\<close>

theorem sweep_child_runs:
  fixes st :: "('m, 's) mlflow"
  assumes sw: "sweep K G algo B rng st = (res, st')" and act: "active st = []"
  shows "\<exists>top cs. runs st' = runs st @ top # cs \<and> run_parent top = None \<and>
           run_status top \<noteq> RUNNING \<and> length cs \<le> B \<and>
           list_all (\<lambda>c. run_parent c = Some (length (runs st)) \<and> run_status c \<noteq> RUNNING \<and>
                      end_time c \<noteq> None) cs \<and>
           (\<forall>out. res = Inr out \<longrightarrow>
              length cs = B \<and> list_all (\<lambda>c. run_status c = FINISHED) cs \<and> run_status top = FINISHED) \<and>
           ((\<forall>trials rng (s :: ('m, 's) mlflow). \<not> isl (fst (objective K G (fst (algo space trials rng)) s))) \<longrightarrow>
              length cs = B \<and> list_all (\<lambda>c. run_status c = FINISHED) cs)"
proof -
  obtain top cs where e: "st' = st\<lparr>runs := runs st @ top # cs, clock := clock st + 2 + 2 * length cs\<rparr>"
    "run_parent top = None"
    "run_status top = (case res of Inl _ \<Rightarrow> FAILED | Inr _ \<Rightarrow> FINISHED)"
    "nested_children (length (runs st)) (Suc (clock st)) cs" "length cs \<le> B"
    "\<forall>best b trials. res = Inr (best, b, trials) \<longrightarrow> length cs = B \<and> (\<forall>c\<in>set cs. run_status c = FINISHED)"
    "(\<forall>trials rng (s :: ('m, 's) mlflow). \<not> isl (fst (objective K G (fst (algo space trials rng)) s))) \<longrightarrow>
        length cs = B \<and> (\<forall>c\<in>set cs. run_status c = FINISHED)"
    using sweep_effect [OF sw act] by blast
  have rs: "runs st' = runs st @ top # cs" using e(1) by simp
  have nr: "run_status top \<noteq> RUNNING" using e(3) by (cases res) auto
  have fin: "\<forall>out. res = Inr out \<longrightarrow>
              length cs = B \<and> list_all (\<lambda>c. run_status c = FINISHED) cs \<and> run_status top = FINISHED"
  proof (intro allI impI)
    fix out assume r: "res = Inr out"
    obtain best b trials where "out = (best, b, trials)" by (cases out) auto
    then have "length cs = B \<and> (\<forall>c\<in>set cs. run_status c = FINISHED)" using e(6) r by blast
    then show "length cs = B \<and> list_all (\<lambda>c. run_status c = FINISHED) cs \<and> run_status top = FINISHED"
      using e(3) r by (simp add: list_all_iff)
  qed
  have nv: "(\<forall>trials rng (s :: ('m, 's) mlflow). \<not> isl (fst (objective K G (fst (algo space trials rng)) s))) \<longrightarrow>
              length cs = B \<and> list_all (\<lambda>c. run_status c = FINISHED) cs"
    using e(7) by (simp add: list_all_iff)
  show ?thesis
    by (intro exI conjI)
      (rule rs, rule e(2), rule nr, rule e(5), rule nested_children_sealed [OF e(4)], rule fin, rule nv)
qed

text \<open>The theorem at a sweep of two evaluations in the stub environment.\<close>

theorem sweep_child_runs_witness:
  "sweep stub_keras stub_globals stub_suggest 2 0 fresh =
     (Inr (fst trial_b, snd trial_b, [trial_a, trial_b]), swept) \<and>
   active fresh = [] \<and>
   (\<forall>trials rng (s :: (real, unit) mlflow). \<not> isl (fst (objective stub_keras stub_globals (fst (stub_suggest space trials rng)) s))) \<and>
   (\<exists>top cs. runs swept = runs fresh @ top # cs \<and>
      length cs = 2 \<and> list_all (\<lambda>c. run_status c = FINISHED) cs \<and> run_status top = FINISHED)"
proof -
  have act: "active fresh = []" by (simp add: fresh_def)
  have never: "\<forall>trials rng (s :: (real, unit) mlflow). \<not> isl (fst (objective stub_keras stub_globals (fst (stub_suggest space trials rng)) s))"
    using stub_never_raises by blast
  obtain top cs where e: "runs swept = runs fresh @ top # cs"
    "\<forall>out. Inr (fst trial_b, snd trial_b, [trial_a, trial_b]) = (Inr out :: exn + _) \<longrightarrow>
              length cs = 2 \<and> list_all (\<lambda>c. run_status c = FINISHED) cs \<and> run_status top = FINISHED"
    "(\<forall>trials rng (s :: (real, unit) mlflow). \<not> isl (fst (objective stub_keras stub_globals (fst (stub_suggest space trials rng)) s))) \<longrightarrow>
       length cs = 2 \<and> list_all (\<lambda>c. run_status c = FINISHED) cs"
    using sweep_child_runs [OF sweep_stub act] by blast
  have a: "length cs = 2 \<and> list_all (\<lambda>c. run_status c = FINISHED) cs"
    using e(3) never by blast
  have b: "run_status top = FINISHED" using e(2) by simp
  have "\<exists>top cs. runs swept = runs fresh @ top # cs \<and>
      length cs = 2 \<and> list_all (\<lambda>c. run_status c = FINISHED) cs \<and> run_status top = FINISHED"
    using e(1) a b by blast
  then show ?thesis using sweep_stub act never by blast
qed

text \<open>
  The claim fails when a trial raises: with a budget of 12 and a network that raises in
  \<^verbatim>\<open>fit\<close>, the sweep leaves two run records, the top-level run and one child.
\<close>

theorem sweep_child_runs_counterexample:
  "sweep failing_keras stub_globals stub_suggest 12 0 fresh =
     (Inl (Raised ''ResourceExhaustedError''), aborted) \<and>
   map run_parent (runs aborted) = [None, Some 0]"
  by (simp add: sweep_failing aborted_def)

section \<open>C4: every run that is begun is ended\<close>

text \<open>
  Claim C4. \<^verbatim>\<open>model_train\<close> and the sweep leave the stack of active runs as they found it,
  on every exit. \<^verbatim>\<open>model_train\<close> adds at most one run record, sealed \<open>FINISHED\<close> when it
  returned and \<open>FAILED\<close> when it raised, whatever the exception, a \<^verbatim>\<open>KeyboardInterrupt\<close>
  included. Every record the sweep adds is sealed, and its first, the top-level run, is
  \<open>FINISHED\<close> when the sweep returned and \<open>FAILED\<close> when it raised.
\<close>

theorem every_run_ended:
  fixes st :: "('m, 's) mlflow" and s :: "('m, 's) mlflow"
  assumes mt: "model_train K sg params epochs train_X train_y validation_X validation_y test_X test_y st = (res, st')"
    and sw: "sweep K G algo B rng s = (out, s')"
  shows "active st' = active st \<and>
         (\<exists>new. runs st' = runs st @ new \<and> length new \<le> 1 \<and>
            list_all (\<lambda>r. run_status r = (case res of Inl _ \<Rightarrow> FAILED | Inr _ \<Rightarrow> FINISHED) \<and>
                           end_time r \<noteq> None) new) \<and>
         active s' = active s \<and>
         (\<exists>new. runs s' = runs s @ new \<and>
            list_all (\<lambda>r. run_status r \<noteq> RUNNING \<and> end_time r \<noteq> None) new \<and>
            (new = [] \<or> run_status (hd new) = (case out of Inl _ \<Rightarrow> FAILED | Inr _ \<Rightarrow> FINISHED)))"
proof -
  have nc: "\<And>p t cs. nested_children p t cs \<Longrightarrow>
      list_all (\<lambda>r :: ('m, 's) run. run_status r \<noteq> RUNNING \<and> end_time r \<noteq> None) cs"
    subgoal for p t cs by (induction cs arbitrary: t) auto
    done
  have a: "active st' = active st \<and>
         (\<exists>new. runs st' = runs st @ new \<and> length new \<le> 1 \<and>
            list_all (\<lambda>r. run_status r = (case res of Inl _ \<Rightarrow> FAILED | Inr _ \<Rightarrow> FINISHED) \<and>
                           end_time r \<noteq> None) new)"
    using model_train_effect [OF mt] unfolding trial_effect_def
  proof (elim disjE exE conjE)
    assume "st' = st"
    then show ?thesis by (intro conjI exI [of _ "[]"]) simp_all
  next
    fix r assume "st' = st\<lparr>runs := runs st @ [r], clock := clock st + 2\<rparr>"
      "run_status r = (case res of Inl x \<Rightarrow> FAILED | Inr x \<Rightarrow> FINISHED)"
      "end_time r = Some (Suc (clock st))"
    then show ?thesis by (intro conjI exI [of _ "[r]"]) simp_all
  qed
  have b: "active s' = active s \<and>
         (\<exists>new. runs s' = runs s @ new \<and>
            list_all (\<lambda>r. run_status r \<noteq> RUNNING \<and> end_time r \<noteq> None) new \<and>
            (new = [] \<or> run_status (hd new) = (case out of Inl _ \<Rightarrow> FAILED | Inr _ \<Rightarrow> FINISHED)))"
  proof (cases "active s = []")
    case False
    then have "s' = s" using sw sweep_active [OF False, of K G algo B rng] by simp
    then show ?thesis by (intro conjI exI [of _ "[]"]) simp_all
  next
    case True
    obtain top cs where e: "s' = s\<lparr>runs := runs s @ top # cs, clock := clock s + 2 + 2 * length cs\<rparr>"
      "end_time top = Some (clock s + 1 + 2 * length cs)"
      "run_status top = (case out of Inl _ \<Rightarrow> FAILED | Inr _ \<Rightarrow> FINISHED)"
      "nested_children (length (runs s)) (Suc (clock s)) cs"
      using sweep_effect [OF sw True] by blast
    have "run_status top \<noteq> RUNNING" using e(3) by (cases out) auto
    then have "list_all (\<lambda>r. run_status r \<noteq> RUNNING \<and> end_time r \<noteq> None) (top # cs)"
      using nc [OF e(4)] e(2) by simp
    then show ?thesis using e(1,3) by (intro conjI exI [of _ "top # cs"]) simp_all
  qed
  show ?thesis using a b by blast
qed

text \<open>The theorem at a network interrupted in \<^verbatim>\<open>fit\<close>.\<close>

theorem every_run_ended_witness:
  "model_train interrupted_keras () [(''lr'', 1 / 10), (''momentum'', 1 / 2)] 3 () () () () () () fresh =
     (Inl KeyboardInterrupt,
      \<lparr>runs = [\<lparr>run_parent = None, run_params = [], run_metrics = [], run_artifacts = [],
                 run_status = FAILED, start_time = 0, end_time = Some 1\<rparr>],
        active = [], registry = [], clock = 2\<rparr>) \<and>
   sweep interrupted_keras stub_globals stub_suggest 12 0 fresh = (Inl KeyboardInterrupt, aborted) \<and>
   active aborted = active fresh \<and>
   (\<exists>new. runs aborted = runs fresh @ new \<and>
      list_all (\<lambda>r. run_status r \<noteq> RUNNING \<and> end_time r \<noteq> None) new \<and>
      (new = [] \<or> run_status (hd new) = FAILED))"
proof -
  have "active aborted = active fresh \<and>
   (\<exists>new. runs aborted = runs fresh @ new \<and>
      list_all (\<lambda>r. run_status r \<noteq> RUNNING \<and> end_time r \<noteq> None) new \<and>
      (new = [] \<or> run_status (hd new) = FAILED))"
    using every_run_ended [OF model_train_interrupted sweep_interrupted] by simp
  then show ?thesis using model_train_interrupted sweep_interrupted by simp
qed

section \<open>C5: what the sweep logs on the top-level run\<close>

text \<open>
  What a returned sweep leaves on the top-level run, proved first for one returned
  value.
\<close>

lemma sweep_logs_best:
  fixes st :: "('m, 's) mlflow"
  assumes sw: "sweep K G algo B rng st = (Inr (best, b, trials), st')"
    and nn: "\<forall>t\<in>set trials. loss (snd t) \<noteq> NaN"
  shows "registry st' = registry st \<and>
         (\<exists>i<length trials. trials ! i = (best, b) \<and>
            (\<forall>j<length trials. float_le (loss b) (loss (snd (trials ! j)))) \<and>
            (\<forall>j<i. float_lt (loss b) (loss (snd (trials ! j))))) \<and>
         (\<exists>top cs et. runs st' = runs st @ top # cs \<and> run_parent top = None \<and>
            run_params top = best \<and> run_metrics top = [(''eval_rmse'', loss b)] \<and>
            run_artifacts top = [(''model'', model b, g_signature G)] \<and>
            run_status top = FINISHED \<and> end_time top = Some et \<and> length cs = B \<and>
            list_all (\<lambda>c. run_status c = FINISHED \<and> (\<exists>ec. end_time c = Some ec \<and> ec < et)) cs)"
proof -
  have act: "active st = []"
  proof (rule ccontr)
    assume "active st \<noteq> []"
    from sweep_active [OF this, of K G algo B rng] sw show False by simp
  qed
  obtain top cs where e: "st' = st\<lparr>runs := runs st @ top # cs, clock := clock st + 2 + 2 * length cs\<rparr>"
    "run_parent top = None"
    "end_time top = Some (clock st + 1 + 2 * length cs)"
    "run_status top = (case (Inr (best, b, trials) :: exn + _) of Inl _ \<Rightarrow> FAILED | Inr _ \<Rightarrow> FINISHED)"
    "nested_children (length (runs st)) (Suc (clock st)) cs"
    and p: "length cs = B" "\<forall>c\<in>set cs. run_status c = FINISHED"
      "trials \<noteq> []" "\<forall>t\<in>set trials. evaluated K G t"
      "best_run (map snd trials) = Inr b" "\<exists>t. best_trial trials = Inr t \<and> best = fst t"
      "run_params top = best" "run_metrics top = [(''eval_rmse'', loss b)]"
      "run_artifacts top = [(''model'', model b, g_signature G)]"
    using sweep_effect [OF sw act] by blast
  have reg: "registry st' = registry st" using e(1) by simp
  have ok: "\<forall>t\<in>set trials. status (snd t) = STATUS_OK"
    using p(4) evaluated_result by blast
  obtain t where t: "best_trial trials = Inr t" "best = fst t" using p(6) by blast
  obtain i where i: "i < length trials" "trials ! i = t" "snd t = b"
    "\<forall>j<length trials. float_le (loss b) (loss (snd (trials ! j)))"
    "\<forall>j<i. float_lt (loss b) (loss (snd (trials ! j)))"
    using best_agree [OF p(3) ok nn t(1) p(5)] by blast
  have "trials ! i = (best, b)" using i(2,3) t(2) by (cases t) auto
  then have sel: "\<exists>i<length trials. trials ! i = (best, b) \<and>
            (\<forall>j<length trials. float_le (loss b) (loss (snd (trials ! j)))) \<and>
            (\<forall>j<i. float_lt (loss b) (loss (snd (trials ! j))))"
    using i(1,4,5) by blast
  have rs: "runs st' = runs st @ top # cs" using e(1) by simp
  have fin: "run_status top = FINISHED" using e(4) by simp
  have la: "list_all (\<lambda>c. run_status c = FINISHED \<and>
       (\<exists>ec. end_time c = Some ec \<and> ec < clock st + 1 + 2 * length cs)) cs"
    unfolding list_all_length
  proof (intro allI impI)
    fix k assume k: "k < length cs"
    have "end_time (cs ! k) = Some (Suc (clock st) + 2 * k + 1)"
      using nested_children_nth [OF e(5) k] by simp
    moreover have "run_status (cs ! k) = FINISHED" using p(2) k by simp
    ultimately show "run_status (cs ! k) = FINISHED \<and>
       (\<exists>ec. end_time (cs ! k) = Some ec \<and> ec < clock st + 1 + 2 * length cs)"
      using k by simp
  qed
  have tp: "\<exists>top cs et. runs st' = runs st @ top # cs \<and> run_parent top = None \<and>
            run_params top = best \<and> run_metrics top = [(''eval_rmse'', loss b)] \<and>
            run_artifacts top = [(''model'', model b, g_signature G)] \<and>
            run_status top = FINISHED \<and> end_time top = Some et \<and> length cs = B \<and>
            list_all (\<lambda>c. run_status c = FINISHED \<and> (\<exists>ec. end_time c = Some ec \<and> ec < et)) cs"
    by (intro exI conjI) (rule rs, rule e(2), rule p(7), rule p(8), rule p(9), rule fin, rule e(3), rule p(1), rule la)
  show ?thesis using reg sel tp by (intro conjI)
qed

text \<open>
  Claim C5, as the code has it. When the sweep returns and no recorded loss is NaN, the
  configuration \<open>fmin\<close> returned and the result \<open>best_run\<close> chose belong to one trial,
  the earliest with the least loss; the top-level run holds that configuration as its
  parameters, that loss as the metric \<^verbatim>\<open>eval_rmse\<close> and that model as the artifact
  \<^verbatim>\<open>model\<close>, and is sealed \<open>FINISHED\<close> after each of the \<open>B\<close> child runs was sealed
  \<open>FINISHED\<close>. The model registry is as it was before the sweep: the notebook registers
  nothing. And the sweep does return, with no NaN among the recorded losses, when it is
  begun with no run active and a positive budget, the trainer raises on no configuration
  the suggestion algorithm proposes, and no value the trainer returns has a NaN loss.
\<close>

theorem best_logged_on_parent:
  fixes st :: "('m, 's) mlflow"
  shows "(\<forall>best b trials st'.
            sweep K G algo B rng st = (Inr (best, b, trials), st') \<and>
            (\<forall>t\<in>set trials. loss (snd t) \<noteq> NaN) \<longrightarrow>
            registry st' = registry st \<and>
             (\<exists>i<length trials. trials ! i = (best, b) \<and>
                (\<forall>j<length trials. float_le (loss b) (loss (snd (trials ! j)))) \<and>
                (\<forall>j<i. float_lt (loss b) (loss (snd (trials ! j))))) \<and>
             (\<exists>top cs et. runs st' = runs st @ top # cs \<and> run_parent top = None \<and>
                run_params top = best \<and> run_metrics top = [(''eval_rmse'', loss b)] \<and>
                run_artifacts top = [(''model'', model b, g_signature G)] \<and>
                run_status top = FINISHED \<and> end_time top = Some et \<and> length cs = B \<and>
                list_all (\<lambda>c. run_status c = FINISHED \<and> (\<exists>ec. end_time c = Some ec \<and> ec < et)) cs)) \<and>
         (active st = [] \<and> 0 < B \<and>
          (\<forall>trials rng (s :: ('m, 's) mlflow). \<not> isl (fst (objective K G (fst (algo space trials rng)) s))) \<and>
          (\<forall>cfg (s :: ('m, 's) mlflow) r s'. objective K G cfg s = (Inr r, s') \<longrightarrow> loss r \<noteq> NaN) \<longrightarrow>
            (\<exists>best b trials st'. sweep K G algo B rng st = (Inr (best, b, trials), st') \<and>
              (\<forall>t\<in>set trials. loss (snd t) \<noteq> NaN)))"
    (is "?returned \<and> ?returns")
proof (rule conjI)
  show ?returned
  proof (intro allI impI)
    fix best b trials and st' :: "('m, 's) mlflow"
    assume a: "sweep K G algo B rng st = (Inr (best, b, trials), st') \<and>
            (\<forall>t\<in>set trials. loss (snd t) \<noteq> NaN)"
    from a have sw: "sweep K G algo B rng st = (Inr (best, b, trials), st')"
      and nn: "\<forall>t\<in>set trials. loss (snd t) \<noteq> NaN"
      by blast+
    from sweep_logs_best [OF sw nn]
    show "registry st' = registry st \<and>
             (\<exists>i<length trials. trials ! i = (best, b) \<and>
                (\<forall>j<length trials. float_le (loss b) (loss (snd (trials ! j)))) \<and>
                (\<forall>j<i. float_lt (loss b) (loss (snd (trials ! j))))) \<and>
             (\<exists>top cs et. runs st' = runs st @ top # cs \<and> run_parent top = None \<and>
                run_params top = best \<and> run_metrics top = [(''eval_rmse'', loss b)] \<and>
                run_artifacts top = [(''model'', model b, g_signature G)] \<and>
                run_status top = FINISHED \<and> end_time top = Some et \<and> length cs = B \<and>
                list_all (\<lambda>c. run_status c = FINISHED \<and> (\<exists>ec. end_time c = Some ec \<and> ec < et)) cs)" .
  qed
  show ?returns
  proof
    assume a: "active st = [] \<and> 0 < B \<and>
          (\<forall>trials rng (s :: ('m, 's) mlflow). \<not> isl (fst (objective K G (fst (algo space trials rng)) s))) \<and>
          (\<forall>cfg (s :: ('m, 's) mlflow) r s'. objective K G cfg s = (Inr r, s') \<longrightarrow> loss r \<noteq> NaN)"
    from a have act: "active st = []" and B: "0 < B"
      and never: "\<forall>trials rng (s :: ('m, 's) mlflow). \<not> isl (fst (objective K G (fst (algo space trials rng)) s))"
      and fin: "\<forall>cfg (s :: ('m, 's) mlflow) r s'. objective K G cfg s = (Inr r, s') \<longrightarrow> loss r \<noteq> NaN"
      by blast+
    from sweep_returns [where K = K and G = G and algo = algo and rng = rng, OF act B never fin]
    show "(\<exists>best b trials st'. sweep K G algo B rng st = (Inr (best, b, trials), st') \<and>
              (\<forall>t\<in>set trials. loss (snd t) \<noteq> NaN))" .
  qed
qed

text \<open>The theorem at a sweep of two evaluations in the stub environment.\<close>

theorem best_logged_on_parent_witness:
  "sweep stub_keras stub_globals stub_suggest 2 0 fresh =
     (Inr (fst trial_b, snd trial_b, [trial_a, trial_b]), swept) \<and>
   NaN \<notin> set (map (\<lambda>t. loss (snd t)) [trial_a, trial_b]) \<and>
   registry swept = registry fresh \<and>
   (\<exists>top cs et. runs swept = runs fresh @ top # cs \<and> run_parent top = None \<and>
      run_params top = fst trial_b \<and> run_metrics top = [(''eval_rmse'', loss (snd trial_b))] \<and>
      run_artifacts top = [(''model'', model (snd trial_b), g_signature stub_globals)] \<and>
      run_status top = FINISHED \<and> end_time top = Some et \<and> length cs = 2 \<and>
      list_all (\<lambda>c. run_status c = FINISHED \<and> (\<exists>ec. end_time c = Some ec \<and> ec < et)) cs) \<and>
   active fresh = [] \<and> (0::nat) < 2 \<and>
   (\<forall>trials rng (s :: (real, unit) mlflow). \<not> isl (fst (objective stub_keras stub_globals (fst (stub_suggest space trials rng)) s))) \<and>
   (\<forall>cfg (s :: (real, unit) mlflow) r s'. \<not> (objective stub_keras stub_globals cfg s = (Inr r, s') \<and> loss r = NaN)) \<and>
   (\<exists>best b trials st'. sweep stub_keras stub_globals stub_suggest 2 0 fresh = (Inr (best, b, trials), st') \<and>
      (\<forall>t\<in>set trials. loss (snd t) \<noteq> NaN))"
proof -
  note inst = best_logged_on_parent [of stub_keras stub_globals stub_suggest 2 0 fresh]
  have nn: "\<forall>t\<in>set [trial_a, trial_b]. loss (snd t) \<noteq> NaN"
    by (simp add: trial_a_def trial_b_def)
  have c: "registry swept = registry fresh \<and>
   (\<exists>top cs et. runs swept = runs fresh @ top # cs \<and> run_parent top = None \<and>
      run_params top = fst trial_b \<and> run_metrics top = [(''eval_rmse'', loss (snd trial_b))] \<and>
      run_artifacts top = [(''model'', model (snd trial_b), g_signature stub_globals)] \<and>
      run_status top = FINISHED \<and> end_time top = Some et \<and> length cs = 2 \<and>
      list_all (\<lambda>c. run_status c = FINISHED \<and> (\<exists>ec. end_time c = Some ec \<and> ec < et)) cs)"
    using inst [THEN conjunct1, rule_format, of "fst trial_b" "snd trial_b" "[trial_a, trial_b]" swept]
      sweep_stub nn
    by blast
  have n: "NaN \<notin> set (map (\<lambda>t. loss (snd t)) [trial_a, trial_b])"
    by (simp add: trial_a_def trial_b_def)
  have act: "active fresh = []" by (simp add: fresh_def)
  have never: "\<forall>trials rng (s :: (real, unit) mlflow). \<not> isl (fst (objective stub_keras stub_globals (fst (stub_suggest space trials rng)) s))"
    using stub_never_raises by blast
  have fin: "\<forall>cfg (s :: (real, unit) mlflow) r s'. objective stub_keras stub_globals cfg s = (Inr r, s') \<longrightarrow> loss r \<noteq> NaN"
    using stub_loss_finite by blast
  have fin': "\<forall>cfg (s :: (real, unit) mlflow) r s'. \<not> (objective stub_keras stub_globals cfg s = (Inr r, s') \<and> loss r = NaN)"
    using stub_loss_finite by blast
  have r: "(\<exists>best b trials st'. sweep stub_keras stub_globals stub_suggest 2 0 fresh = (Inr (best, b, trials), st') \<and>
      (\<forall>t\<in>set trials. loss (snd t) \<noteq> NaN))"
    using inst [THEN conjunct2] act never fin by simp
  show ?thesis
    by (intro conjI) (rule sweep_stub, rule n, rule c [THEN conjunct1], rule c [THEN conjunct2],
      rule act, simp, rule never, rule fin', rule r)
qed

text \<open>
  The claim fails at its registry: the sweep of the stub environment returns, and the
  registry holds no model.
\<close>

theorem registry_counterexample:
  "sweep stub_keras stub_globals stub_suggest 2 0 fresh =
     (Inr (fst trial_b, snd trial_b, [trial_a, trial_b]), swept) \<and>
   registry swept = []"
  by (simp add: sweep_stub swept_def)

section \<open>C8: child runs inside the top-level run\<close>

text \<open>
  Claim C8. In a sweep begun with no run active, whether it returns or raises, every run
  after the top-level run has that run as its one parent, begins after the top-level run
  begins and ends before it ends; when the sweep returns there is one such run for each
  recorded trial.
\<close>

theorem child_lifetime_nested:
  fixes st :: "('m, 's) mlflow"
  assumes sw: "sweep K G algo B rng st = (res, st')" and act: "active st = []"
  shows "\<exists>top cs ep. runs st' = runs st @ top # cs \<and> run_parent top = None \<and>
           end_time top = Some ep \<and>
           list_all (\<lambda>c. run_parent c = Some (length (runs st)) \<and>
                      (\<exists>ec. end_time c = Some ec \<and> start_time top < start_time c \<and>
                            start_time c < ec \<and> ec < ep)) cs \<and>
           (\<forall>best b trials. res = Inr (best, b, trials) \<longrightarrow> length cs = length trials)"
proof -
  obtain top cs where e: "st' = st\<lparr>runs := runs st @ top # cs, clock := clock st + 2 + 2 * length cs\<rparr>"
    "run_parent top = None" "start_time top = clock st"
    "end_time top = Some (clock st + 1 + 2 * length cs)"
    "nested_children (length (runs st)) (Suc (clock st)) cs"
    "\<forall>best b trials. res = Inr (best, b, trials) \<longrightarrow> length cs = B \<and> length trials = B"
    using sweep_effect [OF sw act] by blast
  have la: "list_all (\<lambda>c. run_parent c = Some (length (runs st)) \<and>
                      (\<exists>ec. end_time c = Some ec \<and> start_time top < start_time c \<and>
                            start_time c < ec \<and> ec < clock st + 1 + 2 * length cs)) cs"
    unfolding list_all_length
  proof (intro allI impI)
    fix k assume k: "k < length cs"
    have "run_parent (cs ! k) = Some (length (runs st))"
      "start_time (cs ! k) = Suc (clock st) + 2 * k" "end_time (cs ! k) = Some (Suc (clock st) + 2 * k + 1)"
      using nested_children_nth [OF e(5) k] by simp_all
    then show "run_parent (cs ! k) = Some (length (runs st)) \<and>
         (\<exists>ec. end_time (cs ! k) = Some ec \<and> start_time top < start_time (cs ! k) \<and>
               start_time (cs ! k) < ec \<and> ec < clock st + 1 + 2 * length cs)"
      using k e(3) by simp
  qed
  have rs: "runs st' = runs st @ top # cs" using e(1) by simp
  have len: "\<forall>best b trials. res = Inr (best, b, trials) \<longrightarrow> length cs = length trials"
    using e(6) by simp
  show ?thesis
    by (intro exI conjI) (rule rs, rule e(2), rule e(4), rule la, rule len)
qed

text \<open>The theorem at a sweep of two evaluations in the stub environment.\<close>

theorem child_lifetime_nested_witness:
  "sweep stub_keras stub_globals stub_suggest 2 0 fresh =
     (Inr (fst trial_b, snd trial_b, [trial_a, trial_b]), swept) \<and>
   active fresh = [] \<and>
   (\<exists>top cs ep. runs swept = runs fresh @ top # cs \<and> run_parent top = None \<and>
           end_time top = Some ep \<and>
           list_all (\<lambda>c. run_parent c = Some (length (runs fresh)) \<and>
                      (\<exists>ec. end_time c = Some ec \<and> start_time top < start_time c \<and>
                            start_time c < ec \<and> ec < ep)) cs \<and> length cs = 2)"
proof -
  have act: "active fresh = []" by (simp add: fresh_def)
  obtain top cs ep where e: "runs swept = runs fresh @ top # cs"
    "run_parent top = None" "end_time top = Some ep"
    "list_all (\<lambda>c. run_parent c = Some (length (runs fresh)) \<and>
                      (\<exists>ec. end_time c = Some ec \<and> start_time top < start_time c \<and>
                            start_time c < ec \<and> ec < ep)) cs"
    "\<forall>best b trials. Inr (fst trial_b, snd trial_b, [trial_a, trial_b]) = (Inr (best, b, trials) :: exn + _) \<longrightarrow>
        length cs = length trials"
    using child_lifetime_nested [OF sweep_stub act] by blast
  have "length cs = 2" using e(5) by simp
  then show ?thesis using sweep_stub act e(1-4) by blast
qed

section \<open>C9: the test data\<close>

text \<open>
  Claim C9. \<^verbatim>\<open>model_train\<close> does not depend on its arguments \<^verbatim>\<open>test_X\<close> and \<^verbatim>\<open>test_y\<close>: with
  the other arguments equal, any two test sets give the same result and the same
  tracking state. So \<^verbatim>\<open>objective\<close> does not depend on the globals \<^verbatim>\<open>test_X\<close> and \<^verbatim>\<open>test_y\<close>.
\<close>

theorem test_data_unused:
  "model_train K sg params epochs train_X train_y validation_X validation_y test_X test_y =
   model_train K sg params epochs train_X train_y validation_X validation_y test_X' test_y' \<and>
   objective K (G\<lparr>g_test_X := test_X', g_test_y := test_y'\<rparr>) = objective K G"
  by (simp add: fun_eq_iff model_train_def objective_def)

section \<open>C10: the status of a returned trial\<close>

text \<open>
  Claim C10. A value that \<^verbatim>\<open>model_train\<close> returns has status \<^verbatim>\<open>STATUS_OK\<close>; its model is the
  fitted model and its loss is the second entry of what \<^verbatim>\<open>evaluate\<close> returned for that
  model on the validation data, whatever that value is. And \<^verbatim>\<open>model_train\<close> does return
  that value whenever the configuration has both keys and the calls to build, compile,
  fit and evaluate the network return, with at least two entries in the evaluation.
\<close>

theorem model_train_status_ok:
  shows "(\<forall>r st'. model_train K sg params epochs train_X train_y validation_X validation_y test_X test_y st
                     = (Inr r, st') \<longrightarrow>
            status r = STATUS_OK \<and>
            (\<exists>m1 eval_result.
               fit K m1 train_X train_y validation_X validation_y epochs 64 = Inr (model r) \<and>
               evaluate K (model r) validation_X validation_y 64 = Inr eval_result \<and>
               index eval_result 1 = Inr (loss r))) \<and>
         (\<forall>m0 lr momentum m1 m2 eval_result eval_rmse.
            build K train_X = Inr m0 \<and> getitem params ''lr'' = Inr lr \<and>
            getitem params ''momentum'' = Inr momentum \<and> compile K m0 lr momentum = Inr m1 \<and>
            fit K m1 train_X train_y validation_X validation_y epochs 64 = Inr m2 \<and>
            evaluate K m2 validation_X validation_y 64 = Inr eval_result \<and>
            index eval_result 1 = Inr eval_rmse \<longrightarrow>
            fst (model_train K sg params epochs train_X train_y validation_X validation_y test_X test_y st)
              = Inr \<lparr>loss = eval_rmse, status = STATUS_OK, model = m2\<rparr>)"
    (is "?returned \<and> ?returns")
proof (rule conjI)
  show ?returned
  proof (intro allI impI)
    fix r st'
    assume "model_train K sg params epochs train_X train_y validation_X validation_y test_X test_y st
              = (Inr r, st')"
    from model_train_result [OF this]
    show "status r = STATUS_OK \<and>
            (\<exists>m1 eval_result.
               fit K m1 train_X train_y validation_X validation_y epochs 64 = Inr (model r) \<and>
               evaluate K (model r) validation_X validation_y 64 = Inr eval_result \<and>
               index eval_result 1 = Inr (loss r))"
      by blast
  qed
  show ?returns
  proof (intro allI impI)
    fix m0 lr momentum m1 m2 eval_result eval_rmse
    assume a: "build K train_X = Inr m0 \<and> getitem params ''lr'' = Inr lr \<and>
            getitem params ''momentum'' = Inr momentum \<and> compile K m0 lr momentum = Inr m1 \<and>
            fit K m1 train_X train_y validation_X validation_y epochs 64 = Inr m2 \<and>
            evaluate K m2 validation_X validation_y 64 = Inr eval_result \<and>
            index eval_result 1 = Inr eval_rmse"
    from a have "build K train_X = Inr m0" "getitem params ''lr'' = Inr lr"
      "getitem params ''momentum'' = Inr momentum" "compile K m0 lr momentum = Inr m1"
      "fit K m1 train_X train_y validation_X validation_y epochs 64 = Inr m2"
      "evaluate K m2 validation_X validation_y 64 = Inr eval_result"
      "index eval_result 1 = Inr eval_rmse"
      by blast+
    from model_train_returns [OF this]
    show "fst (model_train K sg params epochs train_X train_y validation_X validation_y test_X test_y st)
              = Inr \<lparr>loss = eval_rmse, status = STATUS_OK, model = m2\<rparr>" .
  qed
qed

text \<open>The theorem at a network that diverges: the trial is ok and its loss is NaN.\<close>

theorem model_train_status_ok_witness:
  "model_train diverging_keras () [(''lr'', 1 / 10), (''momentum'', 1 / 2)] 3 () () () () () () fresh =
     (Inr \<lparr>loss = NaN, status = STATUS_OK, model = 1 / 10\<rparr>,
      \<lparr>runs = [\<lparr>run_parent = None, run_params = [(''lr'', 1 / 10), (''momentum'', 1 / 2)],
                 run_metrics = [(''eval_rmse'', NaN)], run_artifacts = [(''model'', 1 / 10, ())],
                 run_status = FINISHED, start_time = 0, end_time = Some 1\<rparr>],
        active = [], registry = [], clock = 2\<rparr>) \<and>
   status \<lparr>loss = NaN, status = STATUS_OK, model = 1 / 10 :: real\<rparr> = STATUS_OK \<and>
   (\<exists>eval_result. evaluate diverging_keras (1 / 10) () () 64 = Inr eval_result \<and>
      index eval_result 1 = Inr NaN) \<and>
   build diverging_keras () = Inr 0 \<and> getitem ([(''lr'', 1 / 10), (''momentum'', 1 / 2)] :: (string \<times> real) list) ''lr'' = Inr (1 / 10) \<and>
   getitem ([(''lr'', 1 / 10), (''momentum'', 1 / 2)] :: (string \<times> real) list) ''momentum'' = Inr (1 / 2) \<and>
   compile diverging_keras 0 (1 / 10) (1 / 2) = Inr (1 / 10) \<and>
   fit diverging_keras (1 / 10) () () () () 3 64 = Inr (1 / 10) \<and>
   evaluate diverging_keras (1 / 10) () () 64 = Inr [NaN, NaN] \<and>
   index [NaN, NaN] 1 = Inr NaN \<and>
   fst (model_train diverging_keras () [(''lr'', 1 / 10), (''momentum'', 1 / 2)] 3 () () () () () () fresh) =
     Inr \<lparr>loss = NaN, status = STATUS_OK, model = 1 / 10\<rparr>"
proof -
  note inst = model_train_status_ok [of diverging_keras "()" "[(''lr'', 1 / 10), (''momentum'', 1 / 2)]" 3 "()" "()" "()" "()" "()" "()" fresh]
  have a: "status \<lparr>loss = NaN, status = STATUS_OK, model = 1 / 10 :: real\<rparr> = STATUS_OK \<and>
   (\<exists>eval_result. evaluate diverging_keras (1 / 10) () () 64 = Inr eval_result \<and>
      index eval_result 1 = Inr NaN)"
    using inst [THEN conjunct1, rule_format, OF model_train_diverging] by auto
  have h: "build diverging_keras () = Inr 0 \<and> getitem ([(''lr'', 1 / 10), (''momentum'', 1 / 2)] :: (string \<times> real) list) ''lr'' = Inr (1 / 10) \<and>
   getitem ([(''lr'', 1 / 10), (''momentum'', 1 / 2)] :: (string \<times> real) list) ''momentum'' = Inr (1 / 2) \<and>
   compile diverging_keras 0 (1 / 10) (1 / 2) = Inr (1 / 10) \<and>
   fit diverging_keras (1 / 10) () () () () 3 64 = Inr (1 / 10) \<and>
   evaluate diverging_keras (1 / 10) () () 64 = Inr [NaN, NaN] \<and>
   index [NaN, NaN] 1 = Inr NaN"
    by (simp add: diverging_keras_def getitem_def index_def)
  have b: "fst (model_train diverging_keras () [(''lr'', 1 / 10), (''momentum'', 1 / 2)] 3 () () () () () () fresh) =
     Inr \<lparr>loss = NaN, status = STATUS_OK, model = 1 / 10\<rparr>"
    using inst [THEN conjunct2, rule_format, OF h] .
  show ?thesis using model_train_diverging a h b by blast
qed

end
